theory Spec2Isabelle
  imports Complex_Main "HOL-Library.Word"
begin

unbundle bit_operations_syntax

section \<open>Buffers\<close>

text \<open>
  A Node \<open>Buffer\<close> is a sequence of unsigned 8-bit values. Buffers live in a store, a
  list of buffers addressed by position, so that the copy made by \<open>Buffer.from(data)\<close>
  and the indexed writes of the encoder are visible as effects on the store.
\<close>

type_synonym byte = "8 word"
type_synonym buffer = "byte list"
type_synonym addr = nat
type_synonym heap = "buffer list"

text \<open>
  Reading \<open>buf[i]\<close> past the end of a buffer yields \<open>undefined\<close>, which the bitwise
  operators \<open>&\<close> and \<open>|\<close> coerce to 0; a write past the end is ignored
  (as \<open>xs[i := v]\<close> is in HOL).
\<close>

definition getByte :: "buffer \<Rightarrow> nat \<Rightarrow> byte" where
  "getByte buf i = (if i < length buf then buf ! i else 0)"

text \<open>\<open>Buffer.from(data)\<close>: a new buffer holding a copy of the bytes of \<open>data\<close>.\<close>

definition bufferFrom :: "heap \<Rightarrow> addr \<Rightarrow> heap \<times> addr" where
  "bufferFrom h data = (h @ [h ! data], length h)"

section \<open>The bit-to-channel mapping\<close>

text \<open>
  \<open>const pixelIndex = Math.floor(bitIndex / 3) * 4 + (bitIndex % 3)\<close>
  (the encoder's offset of the byte that carries bit number \<open>bitIndex\<close>).
\<close>

definition pixelIndexOf :: "nat \<Rightarrow> nat" where
  "pixelIndexOf bitIndex = (bitIndex div 3) * 4 + bitIndex mod 3"


section \<open>Strings, hexadecimal text and the cipher library\<close>

text \<open>
  A JavaScript string is a sequence of UTF-16 code units. A code unit in
  \<open>D800..DBFF\<close> (a high surrogate) followed by one in \<open>DC00..DFFF\<close> (a low
  surrogate) stands for one code point above \<open>U+FFFF\<close>; a surrogate that is not part of
  such a pair is a lone surrogate.
\<close>

type_synonym codeUnit = "16 word"
type_synonym jsString = "codeUnit list"

definition isHighSurrogate :: "codeUnit \<Rightarrow> bool" where
  "isHighSurrogate c = (0xD800 \<le> unat c \<and> unat c \<le> 0xDBFF)"

definition isLowSurrogate :: "codeUnit \<Rightarrow> bool" where
  "isLowSurrogate c = (0xDC00 \<le> unat c \<and> unat c \<le> 0xDFFF)"

text \<open>The UTF-8 form of one code point, as a list of byte values.\<close>

definition codePointBytes :: "nat \<Rightarrow> nat list" where
  "codePointBytes n =
     (if n < 0x80 then [n]
      else if n < 0x800 then [0xC0 + n div 64, 0x80 + n mod 64]
      else if n < 0x10000 then [0xE0 + n div 4096, 0x80 + n div 64 mod 64, 0x80 + n mod 64]
      else [0xF0 + n div 262144, 0x80 + n div 4096 mod 64, 0x80 + n div 64 mod 64,
            0x80 + n mod 64])"

definition pairCodePoint :: "codeUnit \<Rightarrow> codeUnit \<Rightarrow> nat" where
  "pairCodePoint hi lo = 0x10000 + (unat hi - 0xD800) * 1024 + (unat lo - 0xDC00)"

text \<open>
  \<open>Buffer.from(s, 'utf8')\<close>: a surrogate pair is written as its code point, every other
  code unit as itself, and a lone surrogate as \<open>U+FFFD\<close>, the bytes \<open>EF BF BD\<close>.
\<close>

fun utf8Encode :: "jsString \<Rightarrow> nat list" where
  "utf8Encode [] = []"
| "utf8Encode [c] =
     (if isHighSurrogate c \<or> isLowSurrogate c then [0xEF, 0xBF, 0xBD]
      else codePointBytes (unat c))"
| "utf8Encode (c # d # s) =
     (if isHighSurrogate c \<and> isLowSurrogate d
      then codePointBytes (pairCodePoint c d) @ utf8Encode s
      else if isHighSurrogate c \<or> isLowSurrogate c then [0xEF, 0xBF, 0xBD] @ utf8Encode (d # s)
      else codePointBytes (unat c) @ utf8Encode (d # s))"

definition utf8Bytes :: "jsString \<Rightarrow> buffer" where
  "utf8Bytes s = map of_nat (utf8Encode s)"

text \<open>
  \<open>buf.toString('utf8')\<close>. Bytes that are not UTF-8 do not make the call fail: every
  maximal ill-formed part (a byte that cannot start a sequence, or a sequence cut short by
  a byte that cannot continue it or by the end of the buffer) is replaced by one
  \<open>U+FFFD\<close>, and decoding goes on at the byte that cut the sequence short. Overlong
  forms, surrogates and values above \<open>U+10FFFF\<close> are ill-formed: the range allowed for
  the second byte depends on the first.
\<close>

definition continuation :: "nat \<Rightarrow> bool" where
  "continuation b = (0x80 \<le> b \<and> b \<le> 0xBF)"

definition second3 :: "nat \<Rightarrow> nat \<Rightarrow> bool" where
  "second3 b0 b1 =
     ((if b0 = 0xE0 then 0xA0 else 0x80) \<le> b1 \<and> b1 \<le> (if b0 = 0xED then 0x9F else 0xBF))"

definition second4 :: "nat \<Rightarrow> nat \<Rightarrow> bool" where
  "second4 b0 b1 =
     ((if b0 = 0xF0 then 0x90 else 0x80) \<le> b1 \<and> b1 \<le> (if b0 = 0xF4 then 0x8F else 0xBF))"

fun utf8CodePoints :: "nat list \<Rightarrow> nat list" where
  "utf8CodePoints [] = []"
| "utf8CodePoints (b0 # bs) =
     (if b0 < 0x80 then b0 # utf8CodePoints bs
      else if 0xC2 \<le> b0 \<and> b0 \<le> 0xDF then
        (case bs of
           [] \<Rightarrow> [0xFFFD]
         | b1 # bs1 \<Rightarrow>
             if continuation b1
             then ((b0 - 0xC0) * 64 + (b1 - 0x80)) # utf8CodePoints bs1
             else 0xFFFD # utf8CodePoints bs)
      else if 0xE0 \<le> b0 \<and> b0 \<le> 0xEF then
        (case bs of
           [] \<Rightarrow> [0xFFFD]
         | b1 # bs1 \<Rightarrow>
             if second3 b0 b1 then
               (case bs1 of
                  [] \<Rightarrow> [0xFFFD]
                | b2 # bs2 \<Rightarrow>
                    if continuation b2
                    then ((b0 - 0xE0) * 4096 + (b1 - 0x80) * 64 + (b2 - 0x80)) # utf8CodePoints bs2
                    else 0xFFFD # utf8CodePoints bs1)
             else 0xFFFD # utf8CodePoints bs)
      else if 0xF0 \<le> b0 \<and> b0 \<le> 0xF4 then
        (case bs of
           [] \<Rightarrow> [0xFFFD]
         | b1 # bs1 \<Rightarrow>
             if second4 b0 b1 then
               (case bs1 of
                  [] \<Rightarrow> [0xFFFD]
                | b2 # bs2 \<Rightarrow>
                    if continuation b2 then
                      (case bs2 of
                         [] \<Rightarrow> [0xFFFD]
                       | b3 # bs3 \<Rightarrow>
                           if continuation b3
                           then ((b0 - 0xF0) * 262144 + (b1 - 0x80) * 4096 + (b2 - 0x80) * 64
                                 + (b3 - 0x80)) # utf8CodePoints bs3
                           else 0xFFFD # utf8CodePoints bs2)
                    else 0xFFFD # utf8CodePoints bs1)
             else 0xFFFD # utf8CodePoints bs)
      else 0xFFFD # utf8CodePoints bs)"

declare utf8CodePoints.simps(2) [simp del]

text \<open>The code units of one code point: itself, or a surrogate pair above \<open>U+FFFF\<close>.\<close>

definition codeUnits :: "nat \<Rightarrow> jsString" where
  "codeUnits n =
     (if n < 0x10000 then [of_nat n]
      else [of_nat (0xD800 + (n - 0x10000) div 1024), of_nat (0xDC00 + (n - 0x10000) mod 1024)])"

definition utf8String :: "buffer \<Rightarrow> jsString" where
  "utf8String bs = concat (map codeUnits (utf8CodePoints (map unat bs)))"

text \<open>A string without lone surrogates: every surrogate is half of a pair.\<close>

fun wellFormed :: "jsString \<Rightarrow> bool" where
  "wellFormed [] = True"
| "wellFormed [c] = (\<not> isHighSurrogate c \<and> \<not> isLowSurrogate c)"
| "wellFormed (c # d # s) =
     (if isHighSurrogate c then isLowSurrogate d \<and> wellFormed s
      else \<not> isLowSurrogate c \<and> wellFormed (d # s))"

text \<open>\<open>buf.toString('hex')\<close>: two lower-case digits for each byte.\<close>

definition hexDigit :: "nat \<Rightarrow> codeUnit" where
  "hexDigit n = of_nat (if n < 10 then 48 + n else 87 + n)"

definition toHex :: "buffer \<Rightarrow> jsString" where
  "toHex bs = concat (map (\<lambda>b. [hexDigit (unat b div 16), hexDigit (unat b mod 16)]) bs)"

text \<open>
  Decoding of hexadecimal text by \<open>Buffer.from(s, 'hex')\<close>: pairs of digits of either
  case, up to the first pair that is not one; a last digit without a partner is dropped.
\<close>

definition hexValue :: "codeUnit \<Rightarrow> nat option" where
  "hexValue c =
     (let n = unat c
      in if 48 \<le> n \<and> n \<le> 57 then Some (n - 48)
         else if 97 \<le> n \<and> n \<le> 102 then Some (n - 87)
         else if 65 \<le> n \<and> n \<le> 70 then Some (n - 55)
         else None)"

fun fromHex :: "jsString \<Rightarrow> buffer" where
  "fromHex (c1 # c2 # cs) =
     (case hexValue c1 of
        None \<Rightarrow> []
      | Some hi \<Rightarrow>
          (case hexValue c2 of
             None \<Rightarrow> []
           | Some lo \<Rightarrow> of_nat (hi * 16 + lo) # fromHex cs))"
| "fromHex cs = []"

text \<open>\<open>s.split(sep)\<close> for a one-character separator: always at least one part.\<close>

fun split :: "codeUnit \<Rightarrow> jsString \<Rightarrow> jsString list" where
  "split sep [] = [[]]"
| "split sep (c # cs) =
     (if c = sep then [] # split sep cs
      else (case split sep cs of
              [] \<Rightarrow> [[c]]
            | part # parts \<Rightarrow> (c # part) # parts))"

text \<open>
  Node's \<open>crypto\<close> module is outside the repository; the codec is parametrised by it.
  \<open>sha256\<close> is \<open>createHash('sha256').update(key).digest()\<close>. \<open>createCipher\<close> is
  the whole run \<open>update\<close> then \<open>final\<close> of the cipher object that
  \<open>crypto.createCipher(algorithm, keyHash)\<close> returns, a function of the password and
  the plaintext only: this form of the call takes no initialisation vector.
  \<open>createDecipher\<close> is the same for \<open>crypto.createDecipher\<close>, on the bytes that the
  hexadecimal input stands for; it is \<open>None\<close> where \<open>final\<close> throws.
\<close>

record cryptoLib =
  sha256 :: "buffer \<Rightarrow> buffer"
  createCipher :: "buffer \<Rightarrow> buffer \<Rightarrow> buffer"
  createDecipher :: "buffer \<Rightarrow> buffer \<Rightarrow> buffer option"

text \<open>
  The errors of the codec. The source throws \<open>Error\<close> objects told apart by their
  message: "Message too large. Max capacity: X bytes, required: Y bytes", "No message
  found or message delimiter not detected", and whatever the cipher library throws.
\<close>

datatype error =
    CapacityExceeded nat nat
  | NoMessageFound
  | DecryptionError

text \<open>
  \<open>encryptMessage\<close>. The argument \<open>iv\<close> stands for the value of
  \<open>crypto.randomBytes(16)\<close>; \<open>0x3A\<close> is the colon.
\<close>

definition encryptMessage :: "cryptoLib \<Rightarrow> buffer \<Rightarrow> jsString \<Rightarrow> jsString \<Rightarrow> jsString" where
  "encryptMessage lib iv message key =
     (let keyHash = sha256 lib (utf8Bytes key);
          encrypted = toHex (createCipher lib keyHash (utf8Bytes message))
      in toHex iv @ [0x3A] @ encrypted)"

text \<open>
  \<open>decryptMessage\<close>. With no colon in the text, \<open>encrypted\<close> is \<open>undefined\<close> and
  \<open>decipher.update\<close> throws. \<open>Buffer.from(ivHex, 'hex')\<close> takes any text, but
  \<open>decipher.update(encrypted, 'hex', 'utf8')\<close> checks its input first and throws on
  hexadecimal text of odd length.
\<close>

definition decryptMessage :: "cryptoLib \<Rightarrow> jsString \<Rightarrow> jsString \<Rightarrow> error + jsString" where
  "decryptMessage lib encryptedMessage key =
     (let keyHash = sha256 lib (utf8Bytes key)
      in case split 0x3A encryptedMessage of
           ivHex # encrypted # rest \<Rightarrow>
             (let iv = fromHex ivHex
              in if odd (length encrypted) then Inl DecryptionError
                 else case createDecipher lib keyHash (fromHex encrypted) of
                        Some decrypted \<Rightarrow> Inr (utf8String decrypted)
                      | None \<Rightarrow> Inl DecryptionError)
         | parts \<Rightarrow> Inl DecryptionError)"

section \<open>Encoding\<close>

text \<open>
  \<open>modifiedData[pixelIndex] = (modifiedData[pixelIndex] & 0xFE) | messageBit\<close>,
  a write into the buffer at address \<open>modifiedData\<close> of the store. Every operand is
  below 256, where the 32-bit operators of JavaScript and the 8-bit ones agree.
\<close>

definition setBit :: "heap \<Rightarrow> addr \<Rightarrow> nat \<Rightarrow> byte \<Rightarrow> heap" where
  "setBit h modifiedData pixelIndex messageBit =
     h[modifiedData :=
         (h ! modifiedData)[pixelIndex :=
            (getByte (h ! modifiedData) pixelIndex AND 0xFE) OR messageBit]]"

text \<open>The body of the inner loop, for one value \<open>bit'\<close> of \<open>bit\<close>; the state is the
  store and \<open>bitIndex\<close>.\<close>

definition encodeBit :: "addr \<Rightarrow> byte \<Rightarrow> nat \<Rightarrow> heap \<times> nat \<Rightarrow> heap \<times> nat" where
  "encodeBit modifiedData byte bit' s =
     (case s of (h, bitIndex) \<Rightarrow>
        (let messageBit = drop_bit (7 - bit') byte AND 1;
             pixelIndex = pixelIndexOf bitIndex
         in (setBit h modifiedData pixelIndex messageBit, bitIndex + 1)))"

text \<open>\<open>for (let bit = 0; bit < 8; bit++)\<close>\<close>

definition encodeByte :: "addr \<Rightarrow> byte \<Rightarrow> heap \<times> nat \<Rightarrow> heap \<times> nat" where
  "encodeByte modifiedData byte s = fold (encodeBit modifiedData byte) [0..<8] s"

text \<open>\<open>for (let byteIndex = 0; byteIndex < messageBytes.length; byteIndex++)\<close>, from \<open>bitIndex = 0\<close>.\<close>

definition encodeBytes :: "addr \<Rightarrow> buffer \<Rightarrow> heap \<Rightarrow> heap" where
  "encodeBytes modifiedData messageBytes h =
     fst (fold (encodeByte modifiedData) messageBytes (h, 0))"

text \<open>
  \<open>Math.floor((data.length / 4) * 3)\<close>. The quotient by 4 is exact in binary floating
  point, so the value is the floor of \<open>3 * length / 4\<close> (lemma \<open>maxCapacity_floor\<close>).
\<close>

definition maxCapacity :: "buffer \<Rightarrow> nat" where
  "maxCapacity data = (length data * 3) div 4"

text \<open>
  The message as embedded: enciphered when a key is given (\<open>if (encryptionKey)\<close>: an
  absent key and the empty string both count as no key), then the delimiter, then UTF-8.
\<close>

definition processedMessage :: "cryptoLib \<Rightarrow> buffer \<Rightarrow> jsString \<Rightarrow> jsString option \<Rightarrow> jsString" where
  "processedMessage lib iv message encryptionKey =
     (case encryptionKey of
        None \<Rightarrow> message
      | Some key \<Rightarrow> if key \<noteq> [] then encryptMessage lib iv message key else message)"

definition messageBytes :: "cryptoLib \<Rightarrow> buffer \<Rightarrow> jsString \<Rightarrow> jsString option \<Rightarrow> buffer" where
  "messageBytes lib iv message encryptionKey =
     (let messageWithDelimiter = processedMessage lib iv message encryptionKey @ [0]
      in utf8Bytes messageWithDelimiter)"

text \<open>
  \<open>encodeMessage\<close>, from the raw pixel data on. Decoding the image file into raw
  pixels and rendering the result as PNG are the work of \<open>sharp\<close>, outside the
  repository and lossless: \<open>data\<close> is the address of the raw RGBA buffer that
  \<open>sharp\<close> hands over for the input image, and the result is the store as the call
  leaves it, with either the error thrown or the address of \<open>modifiedData\<close>. The
  \<open>catch\<close> clause rethrows every error with the prefix "Encoding failed: "; the model
  keeps the error itself.
\<close>

definition encodeMessage ::
  "cryptoLib \<Rightarrow> buffer \<Rightarrow> heap \<Rightarrow> addr \<Rightarrow> jsString \<Rightarrow> jsString option \<Rightarrow> heap \<times> (error + addr)" where
  "encodeMessage lib iv h data message encryptionKey =
     (let bytes = messageBytes lib iv message encryptionKey;
          capacity = maxCapacity (h ! data);
          requiredBits = length bytes * 8
      in if requiredBits > capacity
         then (h, Inl (CapacityExceeded (capacity div 8) (length bytes)))
         else (case bufferFrom h data of
                 (h1, modifiedData) \<Rightarrow>
                   (encodeBytes modifiedData bytes h1, Inr modifiedData)))"

section \<open>Decoding\<close>

text \<open>
  The two nested loops of \<open>decodeMessage\<close>, with their early return. The state is
  \<open>messageBytes\<close> (here \<open>bytes\<close>), \<open>currentByte\<close> and \<open>bitCount\<close>; \<open>byteIndex\<close>
  is always the length of \<open>messageBytes\<close>, so the indexed store appends. The numbers
  are JavaScript numbers, modelled as integers: \<open>currentByte\<close> is reset after eight
  shifts and never leaves the 32-bit range. \<open>Terminator bs\<close> is the return from
  inside the loop, with \<open>bs = messageBytes.slice(0, -1)\<close>; \<open>Exhausted\<close> is the normal
  end of the outer loop, after which the source throws.
\<close>

datatype scan = Terminator "int list" | Exhausted

function scanLoop :: "buffer \<Rightarrow> nat \<Rightarrow> nat \<Rightarrow> int list \<Rightarrow> int \<Rightarrow> nat \<Rightarrow> scan" where
  "scanLoop data pixelIndex channel bytes currentByte bitCount =
     (if \<not> pixelIndex < length data then Exhausted
      else if \<not> channel < 3 then scanLoop data (pixelIndex + 4) 0 bytes currentByte bitCount
      else if bitCount + 1 = 8
        then (if last (bytes @ [push_bit 1 currentByte OR uint (getByte data (pixelIndex + channel) AND 1)]) = 0
              then Terminator (butlast (bytes @ [push_bit 1 currentByte OR uint (getByte data (pixelIndex + channel) AND 1)]))
              else scanLoop data pixelIndex (channel + 1)
                     (bytes @ [push_bit 1 currentByte OR uint (getByte data (pixelIndex + channel) AND 1)]) 0 0)
        else scanLoop data pixelIndex (channel + 1) bytes
               (push_bit 1 currentByte OR uint (getByte data (pixelIndex + channel) AND 1)) (bitCount + 1))"
  by pat_completeness auto
termination
  by (relation "measure (\<lambda>(data, pixelIndex, channel, bytes, currentByte, bitCount).
        (length data - pixelIndex) * 4 + (3 - channel))") auto

declare scanLoop.simps [simp del]

text \<open>
  \<open>decodeMessage\<close>, from the raw pixel data on (\<open>data\<close> is the raw RGBA buffer
  that \<open>sharp\<close> hands over). \<open>Buffer.from(array)\<close> keeps the low eight bits of each
  number. The \<open>catch\<close> clause rethrows every error with the prefix
  "Decoding failed: "; the model keeps the error itself.
\<close>

definition decodeMessage :: "cryptoLib \<Rightarrow> buffer \<Rightarrow> jsString option \<Rightarrow> error + jsString" where
  "decodeMessage lib data decryptionKey =
     (case scanLoop data 0 0 [] 0 0 of
        Exhausted \<Rightarrow> Inl NoMessageFound
      | Terminator bytes \<Rightarrow>
          (let messageBuffer = map word_of_int bytes;
               decodedMessage = utf8String messageBuffer
           in case decryptionKey of
                None \<Rightarrow> Inr decodedMessage
              | Some key \<Rightarrow>
                  if key \<noteq> [] then decryptMessage lib decodedMessage key
                  else Inr decodedMessage))"

section \<open>The scan, as the specification words it\<close>

text \<open>
  The specification describes decoding over the sequence of mapped least significant
  bits: bit \<open>i\<close> is the low bit of the byte at offset \<open>pixelIndexOf i\<close>, eight bits make
  a byte, most significant first, and the scan covers three bits for every pixel index
  \<open>0, 4, 8, \<dots>\<close> below the length of the buffer.
\<close>

definition getBit :: "buffer \<Rightarrow> nat \<Rightarrow> int" where
  "getBit data byteOffset = uint (getByte data byteOffset AND 1)"

definition scannedBits :: "buffer \<Rightarrow> nat" where
  "scannedBits data = 3 * ((length data + 3) div 4)"

definition mappedLsbs :: "buffer \<Rightarrow> int list" where
  "mappedLsbs data = map (\<lambda>i. getBit data (pixelIndexOf i)) [0..<scannedBits data]"

text \<open>
  Walking the bits in order: eight bits make a byte, a completed byte \<open>0x00\<close> stops the
  walk with the bytes before it, and running out of bits means no message.
\<close>

fun scanList :: "int list \<Rightarrow> int list \<Rightarrow> int \<Rightarrow> nat \<Rightarrow> scan" where
  "scanList [] bytes currentByte bitCount = Exhausted"
| "scanList (lsb # bits) bytes currentByte bitCount =
     (if bitCount + 1 = 8
      then (if push_bit 1 currentByte OR lsb = 0 then Terminator bytes
            else scanList bits (bytes @ [push_bit 1 currentByte OR lsb]) 0 0)
      else scanList bits bytes (push_bit 1 currentByte OR lsb) (bitCount + 1))"

text \<open>The bytes that the walk completes: one for each full group of eight bits.\<close>

definition assemble :: "int list \<Rightarrow> int" where
  "assemble bits = foldl (\<lambda>currentByte lsb. push_bit 1 currentByte OR lsb) 0 bits"

fun completed :: "int list \<Rightarrow> int list" where
  "completed (b0 # b1 # b2 # b3 # b4 # b5 # b6 # b7 # bits) =
     assemble [b0, b1, b2, b3, b4, b5, b6, b7] # completed bits"
| "completed bits = []"

definition completedBytes :: "buffer \<Rightarrow> int list" where
  "completedBytes data = completed (mappedLsbs data)"

section \<open>The bit stream and the encoder's effect in closed form\<close>

text \<open>
  Bit \<open>i\<close> of the framed message, most significant bit of each byte first: the value
  of \<open>messageBit\<close> when \<open>bitIndex = i\<close>.
\<close>

definition frameBit :: "buffer \<Rightarrow> nat \<Rightarrow> byte" where
  "frameBit bytes i = drop_bit (7 - i mod 8) (bytes ! (i div 8)) AND 1"

text \<open>The bit index that an R, G or B byte offset carries: the inverse of \<open>pixelIndexOf\<close>.\<close>

definition bitIndexOf :: "nat \<Rightarrow> nat" where
  "bitIndexOf byteOffset = (byteOffset div 4) * 3 + byteOffset mod 4"

text \<open>A buffer after the first \<open>n\<close> bits of a bit stream have been written into it.\<close>

definition embedded :: "buffer \<Rightarrow> (nat \<Rightarrow> byte) \<Rightarrow> nat \<Rightarrow> buffer" where
  "embedded buf bits n =
     map (\<lambda>offset.
            if offset mod 4 < 3 \<and> bitIndexOf offset < n
            then (buf ! offset AND 0xFE) OR bits (bitIndexOf offset)
            else buf ! offset)
         [0..<length buf]"

section \<open>A stand-in cipher library\<close>

text \<open>
  For running the codec on concrete inputs: the digest is the key itself, the cipher adds
  the length of the password to every byte and the decipher subtracts it again.
\<close>

definition demoLib :: cryptoLib where
  "demoLib =
     \<lparr> sha256 = (\<lambda>key. key),
       createCipher = (\<lambda>password plain. map (\<lambda>b. b + of_nat (length password)) plain),
       createDecipher = (\<lambda>password enc. Some (map (\<lambda>b. b - of_nat (length password)) enc)) \<rparr>"

section \<open>Properties\<close>

subsection \<open>The mapping law\<close>

lemma pixelIndexOf_mod4: "pixelIndexOf i mod 4 = i mod 3"
proof -
  have "pixelIndexOf i mod 4 = (i mod 3) mod 4"
    unfolding pixelIndexOf_def by simp
  also have "\<dots> = i mod 3"
    by (rule mod_less) (arith)
  finally show ?thesis .
qed

lemma pixelIndexOf_div4: "pixelIndexOf i div 4 = i div 3"
proof -
  have "i mod 3 < 4" by arith
  then show ?thesis
    unfolding pixelIndexOf_def by simp
qed

text \<open>
  C5. The step of the encoder at bit index \<open>i\<close> writes the byte at offset
  \<open>pixelIndexOf i\<close> and moves on to index \<open>i + 1\<close>, and that offset is
  \<open>floor(i/3)*4 + i mod 3\<close>. Its residue modulo 4 is \<open>i mod 3\<close>, hence 0, 1 or 2 (an
  R, G or B byte, never the alpha byte at residue 3), and its pixel number is
  \<open>i div 3\<close>: bit \<open>3p + c\<close> with \<open>c < 3\<close> goes to channel \<open>c\<close> of pixel \<open>p\<close>, so
  consecutive indices run through R, G, B of one pixel and then through R, G, B of the
  next.
\<close>

theorem pixelIndexOf_mapping_law:
  "encodeBit modifiedData byte bit' (h, i)
     = (setBit h modifiedData (pixelIndexOf i) (drop_bit (7 - bit') byte AND 1), i + 1)
   \<and> pixelIndexOf i = (i div 3) * 4 + i mod 3
   \<and> pixelIndexOf i mod 4 = i mod 3
   \<and> pixelIndexOf i mod 4 < 3
   \<and> pixelIndexOf i mod 4 \<noteq> 3
   \<and> pixelIndexOf i div 4 = i div 3
   \<and> pixelIndexOf (3 * p) = 4 * p
   \<and> pixelIndexOf (3 * p + 1) = 4 * p + 1
   \<and> pixelIndexOf (3 * p + 2) = 4 * p + 2
   \<and> pixelIndexOf (3 * p + 3) = 4 * (p + 1)"
proof -
  have m: "pixelIndexOf i mod 4 = i mod 3" by (rule pixelIndexOf_mod4)
  have l: "i mod 3 < 3" by simp
  have a: "pixelIndexOf (3 * p) = 4 * p"
    unfolding pixelIndexOf_def by simp
  have b: "pixelIndexOf (3 * p + 1) = 4 * p + 1"
    unfolding pixelIndexOf_def by presburger
  have c: "pixelIndexOf (3 * p + 2) = 4 * p + 2"
    unfolding pixelIndexOf_def by presburger
  have d: "pixelIndexOf (3 * p + 3) = 4 * (p + 1)"
    unfolding pixelIndexOf_def by presburger
  have z: "pixelIndexOf i = (i div 3) * 4 + i mod 3"
    by (simp add: pixelIndexOf_def)
  have e: "encodeBit modifiedData byte bit' (h, i)
           = (setBit h modifiedData (pixelIndexOf i) (drop_bit (7 - bit') byte AND 1), i + 1)"
    by (simp add: encodeBit_def)
  show ?thesis
    using e z m l a b c d pixelIndexOf_div4 [of i] by simp
qed

subsection \<open>The encoder writes the bit stream, and nothing else\<close>

lemma bitIndexOf_pixelIndexOf: "bitIndexOf (pixelIndexOf i) = i"
  unfolding bitIndexOf_def by (simp add: pixelIndexOf_div4 pixelIndexOf_mod4)

lemma pixelIndexOf_bitIndexOf: "offset mod 4 < 3 \<Longrightarrow> pixelIndexOf (bitIndexOf offset) = offset"
proof -
  assume m: "offset mod 4 < 3"
  have "bitIndexOf offset div 3 = offset div 4"
    unfolding bitIndexOf_def using m by simp
  moreover have "bitIndexOf offset mod 3 = offset mod 4"
    unfolding bitIndexOf_def using m by simp
  ultimately show ?thesis
    unfolding pixelIndexOf_def by simp
qed

lemma length_embedded: "length (embedded buf bits n) = length buf"
  by (simp add: embedded_def)

lemma embedded_0: "embedded buf bits 0 = buf"
  unfolding embedded_def by (simp add: map_nth)

lemma embedded_Suc:
  "(embedded buf bits n)[pixelIndexOf n :=
      (getByte (embedded buf bits n) (pixelIndexOf n) AND 0xFE) OR bits n]
   = embedded buf bits (Suc n)"
proof (rule nth_equalityI)
  show "length ((embedded buf bits n)[pixelIndexOf n :=
      (getByte (embedded buf bits n) (pixelIndexOf n) AND 0xFE) OR bits n]) = length (embedded buf bits (Suc n))"
    by (simp add: length_embedded)
next
  fix offset
  assume "offset < length ((embedded buf bits n)[pixelIndexOf n :=
      (getByte (embedded buf bits n) (pixelIndexOf n) AND 0xFE) OR bits n])"
  then have lt: "offset < length buf"
    by (simp add: length_embedded)
  show "(embedded buf bits n)[pixelIndexOf n :=
      (getByte (embedded buf bits n) (pixelIndexOf n) AND 0xFE) OR bits n] ! offset = embedded buf bits (Suc n) ! offset"
  proof (cases "offset = pixelIndexOf n")
    case True
    then have m: "offset mod 4 < 3" and b: "bitIndexOf offset = n"
      by (simp_all add: pixelIndexOf_mod4 bitIndexOf_pixelIndexOf)
    from lt True have "getByte (embedded buf bits n) (pixelIndexOf n) = buf ! offset"
      using b by (simp add: getByte_def embedded_def)
    then show ?thesis
      using lt True m b by (simp add: embedded_def)
  next
    case False
    have ne: "bitIndexOf offset \<noteq> n" if "offset mod 4 < 3"
    proof
      assume "bitIndexOf offset = n"
      then have "pixelIndexOf n = offset"
        using that pixelIndexOf_bitIndexOf by blast
      with False show False by simp
    qed
    have "embedded buf bits (Suc n) ! offset = embedded buf bits n ! offset"
    proof (cases "offset mod 4 < 3")
      case True
      then have "bitIndexOf offset < Suc n \<longleftrightarrow> bitIndexOf offset < n"
        using ne by auto
      then show ?thesis
        using lt by (simp add: embedded_def)
    next
      case False
      then show ?thesis
        using lt by (simp add: embedded_def)
    qed
    then show ?thesis
      using False by simp
  qed
qed

lemma embedded_cong:
  "(\<And>i. i < n \<Longrightarrow> bits i = bits' i) \<Longrightarrow> embedded buf bits n = embedded buf bits' n"
  unfolding embedded_def by auto

lemma setBit_embedded:
  assumes "md < length h"
  shows "setBit (h[md := embedded buf bits n]) md (pixelIndexOf n) (bits n)
         = h[md := embedded buf bits (Suc n)]"
  using assms by (simp add: setBit_def embedded_Suc)

lemma encodeBit_loop:
  assumes "md < length h" and "k \<le> 8"
  shows "fold (encodeBit md byte) [0..<k] (h[md := embedded buf bits n], n)
         = (h[md := embedded buf (\<lambda>i. if i < n then bits i else drop_bit (7 - (i - n)) byte AND 1) (n + k)], n + k)"
  using assms(2)
proof (induction k)
  case 0
  have "embedded buf (\<lambda>i. if i < n then bits i else drop_bit (7 - (i - n)) byte AND 1) n = embedded buf bits n"
    by (rule embedded_cong) simp
  then show ?case by simp
next
  case (Suc k)
  let ?bits = "\<lambda>i. if i < n then bits i else drop_bit (7 - (i - n)) byte AND 1"
  have "fold (encodeBit md byte) [0..<Suc k] (h[md := embedded buf bits n], n)
        = encodeBit md byte k (h[md := embedded buf ?bits (n + k)], n + k)"
    using Suc by simp
  also have "\<dots> = (setBit (h[md := embedded buf ?bits (n + k)]) md (pixelIndexOf (n + k)) (?bits (n + k)), n + k + 1)"
    by (simp add: encodeBit_def)
  also have "\<dots> = (h[md := embedded buf ?bits (Suc (n + k))], n + k + 1)"
    using setBit_embedded [OF assms(1), of buf ?bits "n + k"] by simp
  finally show ?case by simp
qed

lemma frameBit_snoc: "i < 8 * length bytes \<Longrightarrow> frameBit (bytes @ [b]) i = frameBit bytes i"
proof -
  assume "i < 8 * length bytes"
  then have "i div 8 < length bytes" by simp
  then show ?thesis by (simp add: frameBit_def nth_append)
qed

lemma frameBit_last: "k < 8 \<Longrightarrow> frameBit (bytes @ [b]) (8 * length bytes + k) = drop_bit (7 - k) b AND 1"
  by (simp add: frameBit_def nth_append)

lemma encodeByte_loop:
  assumes "md < length h"
  shows "fold (encodeByte md) bytes (h[md := buf], 0)
         = (h[md := embedded buf (frameBit bytes) (8 * length bytes)], 8 * length bytes)"
proof (induction bytes rule: rev_induct)
  case Nil
  then show ?case by (simp add: embedded_0)
next
  case (snoc b bytes)
  let ?n = "8 * length bytes"
  let ?bits = "\<lambda>i. if i < ?n then frameBit bytes i else drop_bit (7 - (i - ?n)) b AND 1"
  have "fold (encodeByte md) (bytes @ [b]) (h[md := buf], 0)
        = encodeByte md b (fold (encodeByte md) bytes (h[md := buf], 0))"
    by simp
  also have "\<dots> = encodeByte md b (h[md := embedded buf (frameBit bytes) ?n], ?n)"
    by (simp only: snoc)
  also have "\<dots> = fold (encodeBit md b) [0..<8] (h[md := embedded buf (frameBit bytes) ?n], ?n)"
    by (simp only: encodeByte_def)
  also have "\<dots> = (h[md := embedded buf ?bits (?n + 8)], ?n + 8)"
    by (rule encodeBit_loop [OF assms]) simp
  also have "embedded buf ?bits (?n + 8) = embedded buf (frameBit (bytes @ [b])) (?n + 8)"
  proof (rule embedded_cong)
    fix i assume i: "i < ?n + 8"
    show "?bits i = frameBit (bytes @ [b]) i"
    proof (cases "i < ?n")
      case True
      then show ?thesis by (simp add: frameBit_snoc)
    next
      case False
      then have "i = ?n + (i - ?n)" and "i - ?n < 8"
        using i by simp_all
      then show ?thesis
        using False frameBit_last [of "i - ?n" bytes b] by simp
    qed
  qed
  finally show ?case by (simp add: add.commute)
qed

lemma encodeBytes_embedded:
  assumes "md < length h"
  shows "encodeBytes md bytes h = h[md := embedded (h ! md) (frameBit bytes) (8 * length bytes)]"
proof -
  have "h = h[md := h ! md]" by simp
  then have "fold (encodeByte md) bytes (h, 0) = fold (encodeByte md) bytes (h[md := h ! md], 0)"
    by simp
  then show ?thesis
    unfolding encodeBytes_def using encodeByte_loop [OF assms, of bytes "h ! md"] by simp
qed

lemma encodeMessage_success:
  assumes "length (messageBytes lib iv message key) * 8 \<le> maxCapacity (h ! data)"
  shows "encodeMessage lib iv h data message key
         = (h @ [embedded (h ! data) (frameBit (messageBytes lib iv message key))
                        (8 * length (messageBytes lib iv message key))], Inr (length h))"
proof -
  have "encodeBytes (length h) bs (h @ [h ! data])
        = h @ [embedded (h ! data) (frameBit bs) (8 * length bs)]" for bs
    using encodeBytes_embedded [of "length h" "h @ [h ! data]" bs] by simp
  then show ?thesis
    using assms by (simp add: encodeMessage_def bufferFrom_def Let_def)
qed

lemma encodeMessage_failure:
  assumes "\<not> length (messageBytes lib iv message key) * 8 \<le> maxCapacity (h ! data)"
  shows "encodeMessage lib iv h data message key
         = (h, Inl (CapacityExceeded (maxCapacity (h ! data) div 8)
                      (length (messageBytes lib iv message key))))"
  using assms by (simp add: encodeMessage_def Let_def)

subsection \<open>The decoder's loops walk the mapped bits\<close>

lemma scanLoop_scanList:
  assumes "4 dvd pixelIndex" and "channel \<le> 3"
  shows "scanLoop data pixelIndex channel bytes currentByte bitCount
         = scanList (map (\<lambda>i. getBit data (pixelIndexOf i))
                       [3 * (pixelIndex div 4) + channel..<scannedBits data])
             bytes currentByte bitCount"
  using assms
proof (induction data pixelIndex channel bytes currentByte bitCount rule: scanLoop.induct)
  case (1 data p c bytes cur cnt)
  let ?g = "\<lambda>i. getBit data (pixelIndexOf i)"
  let ?i = "3 * (p div 4) + c"
  from \<open>4 dvd p\<close> obtain t where t: "p = 4 * t" by (elim dvdE)
  show ?case
  proof (cases "p < length data")
    case False
    then have "(length data + 3) div 4 \<le> t"
      using t by linarith
    then have "scannedBits data \<le> ?i"
      using t by (simp add: scannedBits_def)
    then have e: "map ?g [?i..<scannedBits data] = []" by simp
    have "scanLoop data p c bytes cur cnt = Exhausted"
      using False by (subst scanLoop.simps) simp
    then show ?thesis by (simp only: e scanList.simps)
  next
    case inside: True
    show ?thesis
    proof (cases "c < 3")
      case False
      with \<open>c \<le> 3\<close> have c: "c = 3" by simp
      have "scanLoop data p c bytes cur cnt = scanLoop data (p + 4) 0 bytes cur cnt"
        using inside False by (subst scanLoop.simps) simp
      also have "\<dots> = scanList (map ?g [3 * ((p + 4) div 4) + 0..<scannedBits data]) bytes cur cnt"
        using inside False \<open>4 dvd p\<close> by (intro "1.IH"(1)) simp_all
      also have "3 * ((p + 4) div 4) + 0 = ?i"
        using c by simp
      finally show ?thesis .
    next
      case True
      have "t < (length data + 3) div 4"
        using inside t by linarith
      then have "3 * t + c < 3 * ((length data + 3) div 4)"
        using True by linarith
      then have lt: "?i < scannedBits data"
        using t by (simp add: scannedBits_def)
      have pi: "pixelIndexOf ?i = p + c"
        using True t by (simp add: pixelIndexOf_def)
      have unfold: "map ?g [?i..<scannedBits data]
                    = uint (getByte data (p + c) AND 1) # map ?g [3 * (p div 4) + (c + 1)..<scannedBits data]"
        using lt pi by (simp add: upt_conv_Cons getBit_def)
      let ?cur = "push_bit 1 cur OR uint (getByte data (p + c) AND 1)"
      show ?thesis
      proof (cases "cnt + 1 = 8")
        case full: True
        show ?thesis
        proof (cases "?cur = 0")
          case True
          have "scanLoop data p c bytes cur cnt = Terminator bytes"
            using inside \<open>c < 3\<close> full True by (subst scanLoop.simps) simp
          moreover have "scanList (map ?g [?i..<scannedBits data]) bytes cur cnt = Terminator bytes"
            unfolding unfold using full True by simp
          ultimately show ?thesis by simp
        next
          case False
          have "scanLoop data p c bytes cur cnt = scanLoop data p (c + 1) (bytes @ [?cur]) 0 0"
            using inside \<open>c < 3\<close> full False by (subst scanLoop.simps) simp
          also have "\<dots> = scanList (map ?g [3 * (p div 4) + (c + 1)..<scannedBits data]) (bytes @ [?cur]) 0 0"
            using inside \<open>c < 3\<close> full False \<open>4 dvd p\<close> by (intro "1.IH"(2)) simp_all
          also have "\<dots> = scanList (map ?g [?i..<scannedBits data]) bytes cur cnt"
            unfolding unfold using full False by simp
          finally show ?thesis .
        qed
      next
        case False
        have "scanLoop data p c bytes cur cnt = scanLoop data p (c + 1) bytes ?cur (cnt + 1)"
          using inside \<open>c < 3\<close> False by (subst scanLoop.simps) simp
        also have "\<dots> = scanList (map ?g [3 * (p div 4) + (c + 1)..<scannedBits data]) bytes ?cur (cnt + 1)"
          using inside \<open>c < 3\<close> False \<open>4 dvd p\<close> by (intro "1.IH"(3)) simp_all
        also have "\<dots> = scanList (map ?g [?i..<scannedBits data]) bytes cur cnt"
          unfolding unfold using False by simp
        finally show ?thesis .
      qed
    qed
  qed
qed

lemma scanList_short:
  "length bits + bitCount < 8 \<Longrightarrow> scanList bits bytes currentByte bitCount = Exhausted"
  by (induction bits arbitrary: currentByte bitCount) simp_all

lemma scanList_eight:
  "scanList (b0 # b1 # b2 # b3 # b4 # b5 # b6 # b7 # bits) bytes 0 0
   = (if assemble [b0, b1, b2, b3, b4, b5, b6, b7] = 0 then Terminator bytes
      else scanList bits (bytes @ [assemble [b0, b1, b2, b3, b4, b5, b6, b7]]) 0 0)"
proof -
  define step :: "int \<Rightarrow> int \<Rightarrow> int" where "step = (\<lambda>c lsb. push_bit 1 c OR lsb)"
  have more: "scanList (lsb # bs) bytes c n = scanList bs bytes (step c lsb) (n + 1)"
    if "n < 7" for lsb bs c n
    using that by (simp add: step_def)
  have full: "scanList (lsb # bs) bytes c n
              = (if step c lsb = 0 then Terminator bytes else scanList bs (bytes @ [step c lsb]) 0 0)"
    if "n = 7" for lsb bs c n
    using that by (simp add: step_def)
  have a: "assemble [b0, b1, b2, b3, b4, b5, b6, b7]
           = step (step (step (step (step (step (step (step 0 b0) b1) b2) b3) b4) b5) b6) b7"
    by (simp only: assemble_def foldl.simps step_def)
  show ?thesis
    unfolding a by (simp add: more full del: scanList.simps)
qed

lemma scanList_completed:
  "scanList bits bytes 0 0
   = (if 0 \<in> set (completed bits)
      then Terminator (bytes @ takeWhile (\<lambda>b. b \<noteq> 0) (completed bits))
      else Exhausted)"
proof (induction bits arbitrary: bytes rule: completed.induct)
  case (1 b0 b1 b2 b3 b4 b5 b6 b7 bits)
  show ?case
    unfolding scanList_eight completed.simps
    using "1.IH" [of "bytes @ [assemble [b0, b1, b2, b3, b4, b5, b6, b7]]"]
    by simp
qed (simp_all add: scanList_short)

lemma scan_completedBytes:
  "scanLoop data 0 0 [] 0 0
   = (if 0 \<in> set (completedBytes data)
      then Terminator (takeWhile (\<lambda>b. b \<noteq> 0) (completedBytes data))
      else Exhausted)"
proof -
  have "scanLoop data 0 0 [] 0 0 = scanList (mappedLsbs data) [] 0 0"
    using scanLoop_scanList [of 0 0 data "[]" 0 0] by (simp add: mappedLsbs_def)
  then show ?thesis
    by (simp add: scanList_completed completedBytes_def)
qed

subsection \<open>Capacity and the written bit\<close>

lemma maxCapacity_floor: "nat \<lfloor>real (length buf) / 4 * 3\<rfloor> = maxCapacity buf"
  unfolding maxCapacity_def by linarith

lemma maxCapacity_pixels: "length buf = 4 * pixelCount \<Longrightarrow> maxCapacity buf = pixelCount * 3"
  unfolding maxCapacity_def by simp

lemma maxCapacity_in_range:
  assumes "k < maxCapacity buf"
  shows "pixelIndexOf k < length buf"
proof -
  define q r L where "q = k div 3" and "r = k mod 3" and "L = length buf"
  have k: "k = 3 * q + r" and r: "r < 3"
    by (simp_all add: q_def r_def)
  from assms have "Suc k \<le> L * 3 div 4"
    by (simp add: maxCapacity_def L_def)
  then have "4 * Suc k \<le> L * 3"
    by (simp add: less_eq_div_iff_mult_less_eq)
  then have "4 * Suc (3 * q + r) \<le> L * 3"
    using k by simp
  then have "4 * q + r < L"
    using r by simp
  then show ?thesis
    by (simp add: pixelIndexOf_def q_def r_def L_def)
qed

lemma maxCapacity_le_scannedBits: "maxCapacity buf \<le> scannedBits buf"
  unfolding maxCapacity_def scannedBits_def by linarith

lemma bit_FE: "bit (0xFE :: byte) n \<longleftrightarrow> 0 < n \<and> n < 8"
proof -
  have fe: "(0xFE :: byte) = push_bit 1 (mask 7)"
    by (simp add: mask_eq_exp_minus_1 push_bit_eq_mult)
  have "bit (push_bit 1 (mask 7 :: byte)) n \<longleftrightarrow> 0 < n \<and> n < 8"
    by (simp only: bit_push_bit_iff bit_mask_iff possible_bit_word) auto
  then show ?thesis
    by (simp only: fe)
qed

lemma low_bit_written:
  fixes x b :: byte
  assumes "b AND 1 = b"
  shows "((x AND 0xFE) OR b) AND 1 = b"
proof -
  have "((x AND 0xFE) OR (b AND 1)) AND 1 = b AND 1"
    by (rule bit_eqI) (auto simp add: bit_and_iff bit_or_iff bit_FE bit_1_iff)
  then show ?thesis
    using assms by simp
qed

lemma high_bits_kept:
  fixes x b :: byte
  assumes "b AND 1 = b"
  shows "drop_bit 1 ((x AND 0xFE) OR b) = drop_bit 1 x"
proof (rule bit_eqI)
  fix n
  assume "possible_bit TYPE(byte) n"
  have "bit x (1 + n) \<Longrightarrow> 1 + n < 8"
    using bit_imp_le_length [of x "1 + n"] by simp
  then have "(bit x (1 + n) \<and> 0 < 1 + n \<and> 1 + n < 8 \<or> bit b (1 + n) \<and> 1 + n = 0) = bit x (1 + n)"
    by auto
  then have "bit ((x AND 0xFE) OR (b AND 1)) (1 + n) = bit x (1 + n)"
    by (simp only: bit_and_iff bit_or_iff bit_FE bit_1_iff)
  then show "bit (drop_bit 1 ((x AND 0xFE) OR b)) n = bit (drop_bit 1 x) n"
    by (simp only: assms bit_drop_bit_eq comp_apply)
qed

lemma uint_drop_bit_1: "uint (drop_bit 1 (x :: byte)) = uint x div 2"
  by (simp add: drop_bit_eq_div uint_div)

lemma perturbation:
  fixes x b :: byte
  assumes "b AND 1 = b"
  shows "\<bar>uint ((x AND 0xFE) OR b) - uint x\<bar> \<le> 1"
proof -
  have "uint ((x AND 0xFE) OR b) div 2 = uint x div 2"
    using arg_cong [OF high_bits_kept [OF assms, of x], of uint] by (simp only: uint_drop_bit_1)
  then show ?thesis by linarith
qed

lemma frameBit_bit: "frameBit bytes i AND 1 = frameBit bytes i"
  by (simp add: frameBit_def and.assoc)

subsection \<open>Reading back what was written\<close>

lemma getBit_embedded:
  assumes "k < n" and "pixelIndexOf k < length buf" and "bits k AND 1 = bits k"
  shows "getBit (embedded buf bits n) (pixelIndexOf k) = uint (bits k)"
proof -
  have "embedded buf bits n ! pixelIndexOf k = (buf ! pixelIndexOf k AND 0xFE) OR bits k"
    using assms(1,2) by (simp add: embedded_def pixelIndexOf_mod4 bitIndexOf_pixelIndexOf)
  then show ?thesis
    using assms(2,3) by (simp add: getBit_def getByte_def length_embedded low_bit_written)
qed

lemma step_bit: "lsb = 0 \<or> lsb = 1 \<Longrightarrow> push_bit 1 c OR lsb = 2 * c + (lsb :: int)"
  by (auto simp add: push_bit_eq_mult or_one_eq)

lemma uint_bit: "uint (drop_bit k (b :: byte) AND 1) = (uint b div 2 ^ k) mod 2"
proof -
  have "take_bit LENGTH(8) (uint b) = uint b"
  proof (rule take_bit_int_eq_self)
    show "0 \<le> uint b" by simp
    show "uint b < 2 ^ LENGTH(8)" by (rule uint_bounded)
  qed
  then have d: "uint (drop_bit k b) = drop_bit k (uint b)"
    by (simp only: unsigned_drop_bit_eq)
  have "uint (drop_bit k b AND 1) = uint (drop_bit k b) AND 1"
    by (simp only: uint_and uint_1)
  also have "\<dots> = uint (drop_bit k b) mod 2"
    by (simp only: and_one_eq)
  also have "\<dots> = drop_bit k (uint b) mod 2"
    by (simp only: d)
  also have "\<dots> = uint b div 2 ^ k mod 2"
    by (simp only: drop_bit_eq_div)
  finally show ?thesis .
qed

lemma assemble_prefix:
  "n \<le> 8 \<Longrightarrow>
   assemble (map (\<lambda>k. uint (drop_bit (7 - k) (b :: byte) AND 1)) [0..<n]) = uint b div 2 ^ (8 - n)"
proof (induction n)
  case 0
  have "uint b < 2 ^ 8"
    using uint_bounded [of b] by simp
  then show ?case
    by (simp add: assemble_def)
next
  case (Suc n)
  define v where "v = uint b div 2 ^ (7 - n)"
  have "8 - n = Suc (7 - n)"
    using Suc.prems by simp
  then have p: "(2::int) ^ (8 - n) = 2 ^ (7 - n) * 2"
    by (simp only: power_Suc2)
  have "uint b div 2 ^ (8 - n) = v div 2"
    unfolding p v_def by (simp add: zdiv_zmult2_eq)
  then have "assemble (map (\<lambda>k. uint (drop_bit (7 - k) b AND 1)) [0..<n]) = v div 2"
    using Suc by simp
  then have "assemble (map (\<lambda>k. uint (drop_bit (7 - k) b AND 1)) [0..<Suc n])
             = push_bit 1 (v div 2) OR (v mod 2)"
    by (simp add: assemble_def uint_bit v_def)
  also have "\<dots> = 2 * (v div 2) + v mod 2"
    by (rule step_bit) presburger
  also have "\<dots> = v" by simp
  finally show ?case by (simp add: v_def)
qed

lemma assemble_byte:
  "assemble (map (\<lambda>k. uint (drop_bit (7 - k) (b :: byte) AND 1)) [0..<8]) = uint b"
  using assemble_prefix [of 8 b] by simp

lemma completed_group:
  assumes "length g = 8"
  shows "completed (g @ rest) = assemble g # completed rest"
proof -
  from assms obtain b0 b1 b2 b3 b4 b5 b6 b7 where "g = [b0, b1, b2, b3, b4, b5, b6, b7]"
    by (auto simp add: numeral_eq_Suc length_Suc_conv)
  then show ?thesis by simp
qed

lemma frameBit_Cons_low: "k < 8 \<Longrightarrow> frameBit (b # bytes) k = drop_bit (7 - k) b AND 1"
  by (simp add: frameBit_def)

lemma frameBit_Cons_high: "frameBit (b # bytes) (k + 8) = frameBit bytes k"
  by (simp add: frameBit_def)

lemma completed_frame:
  "completed (map (\<lambda>k. uint (frameBit bytes k)) [0..<8 * length bytes] @ rest)
   = map uint bytes @ completed rest"
proof (induction bytes)
  case Nil
  then show ?case by simp
next
  case (Cons b bytes)
  let ?f = "\<lambda>k. uint (frameBit (b # bytes) k)"
  let ?n = "8 * length bytes"
  have "[0..<8 * length (b # bytes)] = [0..<8] @ [8..<?n + 8]"
    using upt_add_eq_append [of 0 8 ?n] by (simp add: add.commute)
  also have "[8..<?n + 8] = map (\<lambda>k. k + 8) [0..<?n]"
    by (simp only: map_add_upt)
  finally have "map ?f [0..<8 * length (b # bytes)]
                = map ?f [0..<8] @ map (\<lambda>k. ?f (k + 8)) [0..<?n]"
    by (simp add: comp_def)
  moreover have "map ?f [0..<8] = map (\<lambda>k. uint (drop_bit (7 - k) b AND 1)) [0..<8]"
    by (rule map_cong) (simp_all add: frameBit_Cons_low)
  moreover have "map (\<lambda>k. ?f (k + 8)) [0..<?n] = map (\<lambda>k. uint (frameBit bytes k)) [0..<?n]"
    by (simp only: frameBit_Cons_high)
  ultimately have "completed (map ?f [0..<8 * length (b # bytes)] @ rest)
        = completed (map (\<lambda>k. uint (drop_bit (7 - k) b AND 1)) [0..<8]
                     @ (map (\<lambda>k. uint (frameBit bytes k)) [0..<?n] @ rest))"
    by simp
  also have "\<dots> = assemble (map (\<lambda>k. uint (drop_bit (7 - k) b AND 1)) [0..<8])
                  # completed (map (\<lambda>k. uint (frameBit bytes k)) [0..<?n] @ rest)"
    by (rule completed_group) simp
  finally show ?case
    by (simp only: assemble_byte Cons.IH list.map append_Cons)
qed

lemma mappedLsbs_embedded:
  assumes "8 * length bytes \<le> maxCapacity buf"
  shows "mappedLsbs (embedded buf (frameBit bytes) (8 * length bytes))
         = map (\<lambda>k. uint (frameBit bytes k)) [0..<8 * length bytes]
           @ map (\<lambda>i. getBit (embedded buf (frameBit bytes) (8 * length bytes)) (pixelIndexOf i))
               [8 * length bytes..<scannedBits buf]"
proof -
  let ?n = "8 * length bytes"
  let ?enc = "embedded buf (frameBit bytes) ?n"
  have n: "?n \<le> scannedBits buf"
    using assms maxCapacity_le_scannedBits [of buf] by simp
  have s: "scannedBits ?enc = scannedBits buf"
    by (simp add: scannedBits_def length_embedded)
  have "[0..<scannedBits buf] = [0..<?n] @ [?n..<scannedBits buf]"
    using n upt_add_eq_append [of 0 ?n "scannedBits buf - ?n"] by simp
  moreover have "map (\<lambda>i. getBit ?enc (pixelIndexOf i)) [0..<?n]
                 = map (\<lambda>k. uint (frameBit bytes k)) [0..<?n]"
  proof (rule map_cong)
    fix k assume "k \<in> set [0..<?n]"
    then have k: "k < ?n" by simp
    then have "pixelIndexOf k < length buf"
      using assms by (intro maxCapacity_in_range) simp
    then show "getBit ?enc (pixelIndexOf k) = uint (frameBit bytes k)"
      using k by (intro getBit_embedded frameBit_bit)
  qed simp
  ultimately show ?thesis
    by (simp add: mappedLsbs_def s)
qed

lemma completedBytes_embedded:
  assumes "8 * length bytes \<le> maxCapacity buf"
  shows "\<exists>rest. completedBytes (embedded buf (frameBit bytes) (8 * length bytes))
                = map uint bytes @ rest"
  unfolding completedBytes_def mappedLsbs_embedded [OF assms] completed_frame by blast

lemma uint_byte_eq_0: "uint (b :: byte) = 0 \<longleftrightarrow> b = 0"
  by (simp add: uint_0_iff)

lemma takeWhile_uint:
  "0 \<in> set bytes \<Longrightarrow>
   takeWhile (\<lambda>b. b \<noteq> 0) (map uint bytes @ rest)
   = map uint (takeWhile (\<lambda>b. b \<noteq> (0 :: byte)) bytes)"
  by (induction bytes) (auto simp add: uint_byte_eq_0)

lemma scan_embedded:
  assumes "8 * length bytes \<le> maxCapacity buf" and "0 \<in> set bytes"
  shows "scanLoop (embedded buf (frameBit bytes) (8 * length bytes)) 0 0 [] 0 0
         = Terminator (map uint (takeWhile (\<lambda>b. b \<noteq> 0) bytes))"
proof -
  obtain rest where r: "completedBytes (embedded buf (frameBit bytes) (8 * length bytes))
                        = map uint bytes @ rest"
    using completedBytes_embedded [OF assms(1)] by blast
  have "(0::int) \<in> set (map uint bytes)"
    using assms(2) by (force simp add: uint_byte_eq_0)
  then have z: "(0::int) \<in> set (map uint bytes @ rest)"
    by simp
  show ?thesis
    by (simp only: scan_completedBytes r z if_True takeWhile_uint [OF assms(2)])
qed

subsection \<open>UTF-8: decoding what was encoded\<close>

lemma codePoints1:
  "b0 < 0x80 \<Longrightarrow> utf8CodePoints (b0 # rest) = b0 # utf8CodePoints rest"
  by (simp add: utf8CodePoints.simps(2))

lemma codePoints2:
  "0xC2 \<le> b0 \<Longrightarrow> b0 \<le> 0xDF \<Longrightarrow> continuation b1 \<Longrightarrow>
   utf8CodePoints (b0 # b1 # rest) = ((b0 - 0xC0) * 64 + (b1 - 0x80)) # utf8CodePoints rest"
  by (simp add: utf8CodePoints.simps(2))

lemma codePoints3:
  "0xE0 \<le> b0 \<Longrightarrow> b0 \<le> 0xEF \<Longrightarrow> second3 b0 b1 \<Longrightarrow> continuation b2 \<Longrightarrow>
   utf8CodePoints (b0 # b1 # b2 # rest)
   = ((b0 - 0xE0) * 4096 + (b1 - 0x80) * 64 + (b2 - 0x80)) # utf8CodePoints rest"
  by (simp add: utf8CodePoints.simps(2))

lemma codePoints4:
  "0xF0 \<le> b0 \<Longrightarrow> b0 \<le> 0xF4 \<Longrightarrow> second4 b0 b1 \<Longrightarrow> continuation b2 \<Longrightarrow> continuation b3 \<Longrightarrow>
   utf8CodePoints (b0 # b1 # b2 # b3 # rest)
   = ((b0 - 0xF0) * 262144 + (b1 - 0x80) * 4096 + (b2 - 0x80) * 64 + (b3 - 0x80))
     # utf8CodePoints rest"
  by (simp add: utf8CodePoints.simps(2))

lemma decode1:
  assumes "n < 0x80"
  shows "utf8CodePoints (codePointBytes n @ rest) = n # utf8CodePoints rest"
  using assms by (simp add: codePointBytes_def codePoints1)

lemma decode2:
  assumes "0x80 \<le> n" and "n < 0x800"
  shows "utf8CodePoints (codePointBytes n @ rest) = n # utf8CodePoints rest"
proof -
  define a r where "a = n div 64" and "r = n mod 64"
  have n: "n = 64 * a + r" and r: "r < 64"
    by (simp_all add: a_def r_def)
  have a: "2 \<le> a" "a \<le> 31"
    using assms n r by linarith+
  have "codePointBytes n = [192 + a, 128 + r]"
    using assms by (simp add: codePointBytes_def a_def r_def)
  moreover have "utf8CodePoints ((192 + a) # (128 + r) # rest) = n # utf8CodePoints rest"
    using a r n by (subst codePoints2) (simp_all add: continuation_def)
  ultimately show ?thesis by simp
qed

lemma decode3:
  assumes "0x800 \<le> n" and "n < 0x10000" and "\<not> (0xD800 \<le> n \<and> n \<le> 0xDFFF)"
  shows "utf8CodePoints (codePointBytes n @ rest) = n # utf8CodePoints rest"
proof -
  define a b r where "a = n div 4096" and "b = n div 64 mod 64" and "r = n mod 64"
  have "n div 4096 = n div 64 div 64"
    by (simp add: div_mult2_eq)
  then have "n div 64 = 64 * a + b"
    by (simp add: a_def b_def)
  then have n: "n = 4096 * a + 64 * b + r"
    using div_mult_mod_eq [of n 64] by (simp add: r_def)
  have r: "r < 64" and b: "b < 64"
    by (simp_all add: b_def r_def)
  have a: "a \<le> 15"
    using assms n by linarith
  have lo: "a = 0 \<Longrightarrow> 32 \<le> b"
    using assms n r by linarith
  have hi: "a = 13 \<Longrightarrow> b \<le> 31"
    using assms n r b by linarith
  have "codePointBytes n = [224 + a, 128 + b, 128 + r]"
    using assms by (simp add: codePointBytes_def a_def b_def r_def)
  moreover have "utf8CodePoints ((224 + a) # (128 + b) # (128 + r) # rest) = n # utf8CodePoints rest"
    using a b r n lo hi by (subst codePoints3) (auto simp add: continuation_def second3_def)
  ultimately show ?thesis by simp
qed

lemma decode4:
  assumes "0x10000 \<le> n" and "n < 0x110000"
  shows "utf8CodePoints (codePointBytes n @ rest) = n # utf8CodePoints rest"
proof -
  define a b c r where "a = n div 262144" and "b = n div 4096 mod 64"
    and "c = n div 64 mod 64" and "r = n mod 64"
  have "n div 4096 = n div 64 div 64" and "n div 262144 = n div 4096 div 64"
    by (simp_all add: div_mult2_eq)
  then have "n div 64 = 64 * (n div 4096) + c" and "n div 4096 = 64 * a + b"
    by (simp_all add: a_def b_def c_def)
  then have n: "n = 262144 * a + 4096 * b + 64 * c + r"
    using div_mult_mod_eq [of n 64] by (simp add: r_def)
  have r: "r < 64" and b: "b < 64" and c: "c < 64"
    by (simp_all add: b_def c_def r_def)
  have a: "a \<le> 4"
    using assms n by linarith
  have lo: "a = 0 \<Longrightarrow> 16 \<le> b"
    using assms n r c by linarith
  have hi: "a = 4 \<Longrightarrow> b \<le> 15"
    using assms n r c b by linarith
  have "codePointBytes n = [240 + a, 128 + b, 128 + c, 128 + r]"
    using assms by (simp add: codePointBytes_def a_def b_def c_def r_def)
  moreover have "utf8CodePoints ((240 + a) # (128 + b) # (128 + c) # (128 + r) # rest) = n # utf8CodePoints rest"
    using a b c r n lo hi by (subst codePoints4) (auto simp add: continuation_def second4_def)
  ultimately show ?thesis by simp
qed

lemma decode_scalar:
  assumes "n < 0x110000" and "\<not> (0xD800 \<le> n \<and> n \<le> 0xDFFF)"
  shows "utf8CodePoints (codePointBytes n @ rest) = n # utf8CodePoints rest"
proof -
  consider "n < 0x80" | "0x80 \<le> n \<and> n < 0x800" | "0x800 \<le> n \<and> n < 0x10000" | "0x10000 \<le> n"
    by linarith
  then show ?thesis
  proof cases
    case 1 then show ?thesis by (rule decode1)
  next
    case 2 then show ?thesis by (simp add: decode2)
  next
    case 3 then show ?thesis using assms(2) by (simp add: decode3)
  next
    case 4 then show ?thesis using assms(1) by (simp add: decode4)
  qed
qed


lemma codePointBytes_bound: "n < 0x110000 \<Longrightarrow> b \<in> set (codePointBytes n) \<Longrightarrow> b < 256"
proof -
  assume n: "n < 0x110000" and b: "b \<in> set (codePointBytes n)"
  have "n div 64 < 32" if "n < 0x800"
    using that by linarith
  moreover have "n div 4096 < 16" if "n < 0x10000"
    using that by linarith
  moreover have "n div 262144 < 5"
    using n by linarith
  moreover have "n mod 64 < 64" "n div 64 mod 64 < 64" "n div 4096 mod 64 < 64"
    by simp_all
  ultimately show ?thesis
    using b by (auto simp add: codePointBytes_def split: if_splits)
qed

lemma codePointBytes_zero: "0 \<in> set (codePointBytes n) \<Longrightarrow> n = 0"
  by (auto simp add: codePointBytes_def split: if_splits)

lemma unat_unit_bound: "unat (c :: codeUnit) < 0x10000"
  using unsigned_less [of c, where ?'a = nat] by simp

lemma pairCodePoint_bounds:
  assumes "isHighSurrogate c" and "isLowSurrogate d"
  shows "0x10000 \<le> pairCodePoint c d" and "pairCodePoint c d < 0x110000"
  using assms unfolding pairCodePoint_def isHighSurrogate_def isLowSurrogate_def
  by linarith+

lemma utf8Encode_bound: "b \<in> set (utf8Encode s) \<Longrightarrow> b < 256"
proof (induction s arbitrary: b rule: utf8Encode.induct)
  case 1
  then show ?case by simp
next
  case (2 c)
  then show ?case
    using codePointBytes_bound [of "unat c" b] unat_unit_bound [of c]
    by (auto split: if_splits)
next
  case (3 c d s)
  then show ?case
    using codePointBytes_bound [of "unat c" b] unat_unit_bound [of c]
      codePointBytes_bound [of "pairCodePoint c d" b] pairCodePoint_bounds(2) [of c d]
    by (auto split: if_splits)
qed

lemma unat_utf8Bytes: "map unat (utf8Bytes s) = utf8Encode s"
proof -
  have "map unat (map of_nat xs :: byte list) = xs" if "\<And>b. b \<in> set xs \<Longrightarrow> b < 256" for xs
    using that by (induction xs) (simp_all add: unat_of_nat)
  then show ?thesis
    unfolding utf8Bytes_def using utf8Encode_bound by blast
qed

lemma length_utf8Bytes: "length (utf8Bytes s) = length (utf8Encode s)"
  by (simp add: utf8Bytes_def)

lemma codeUnits_unit: "codeUnits (unat (c :: codeUnit)) = [c]"
  using unat_unit_bound [of c] by (simp add: codeUnits_def)

lemma codeUnits_pair:
  assumes "isHighSurrogate c" and "isLowSurrogate d"
  shows "codeUnits (pairCodePoint c d) = [c, d]"
proof -
  define x y where "x = unat c - 0xD800" and "y = unat d - 0xDC00"
  have c: "unat c = 0xD800 + x" and d: "unat d = 0xDC00 + y" and y: "y < 1024"
    using assms unfolding x_def y_def isHighSurrogate_def isLowSurrogate_def
    by linarith+
  have p: "pairCodePoint c d - 0x10000 = x * 1024 + y"
    by (simp add: pairCodePoint_def x_def y_def)
  have "(x * 1024 + y) div 1024 = x" and "(x * 1024 + y) mod 1024 = y"
    using y by simp_all
  then have "codeUnits (pairCodePoint c d) = [of_nat (unat c), of_nat (unat d)]"
    using pairCodePoint_bounds(1) [OF assms] p c d by (simp add: codeUnits_def)
  then show ?thesis by simp
qed

lemma utf8_roundtrip_units:
  "wellFormed s \<Longrightarrow> concat (map codeUnits (utf8CodePoints (utf8Encode s @ rest)))
                     = s @ concat (map codeUnits (utf8CodePoints rest))"
proof (induction s rule: utf8Encode.induct)
  case 1
  then show ?case by simp
next
  case (2 c)
  then have "\<not> (0xD800 \<le> unat c \<and> unat c \<le> 0xDFFF)"
    by (auto simp add: isHighSurrogate_def isLowSurrogate_def)
  then show ?case
    using 2 unat_unit_bound [of c] by (simp add: decode_scalar codeUnits_unit)
next
  case (3 c d s)
  show ?case
  proof (cases "isHighSurrogate c")
    case True
    then have l: "isLowSurrogate d" and w: "wellFormed s"
      using "3.prems" by simp_all
    have "utf8CodePoints (codePointBytes (pairCodePoint c d) @ utf8Encode s @ rest)
          = pairCodePoint c d # utf8CodePoints (utf8Encode s @ rest)"
      using pairCodePoint_bounds [OF True l] by (intro decode_scalar) simp_all
    then show ?thesis
      using True l w "3.IH"(1) by (simp add: codeUnits_pair)
  next
    case False
    then have n: "\<not> isLowSurrogate c" and w: "wellFormed (d # s)"
      using "3.prems" by simp_all
    have "\<not> (0xD800 \<le> unat c \<and> unat c \<le> 0xDFFF)"
      using False n by (auto simp add: isHighSurrogate_def isLowSurrogate_def)
    then have "utf8CodePoints (codePointBytes (unat c) @ utf8Encode (d # s) @ rest)
          = unat c # utf8CodePoints (utf8Encode (d # s) @ rest)"
      using unat_unit_bound [of c] by (intro decode_scalar) simp_all
    then show ?thesis
      using False n w "3.IH"(3) by (simp add: codeUnits_unit)
  qed
qed

lemma utf8String_utf8Bytes: "wellFormed s \<Longrightarrow> utf8String (utf8Bytes s) = s"
  using utf8_roundtrip_units [of s "[]"] by (simp add: utf8String_def unat_utf8Bytes)

lemma isLowSurrogate_0: "\<not> isLowSurrogate 0" and isHighSurrogate_0: "\<not> isHighSurrogate 0"
  by (simp_all add: isLowSurrogate_def isHighSurrogate_def)

lemma utf8Encode_snoc_nul: "utf8Encode (s @ [0]) = utf8Encode s @ [0]"
  by (induction s rule: utf8Encode.induct)
    (simp_all add: isLowSurrogate_0 isHighSurrogate_0 codePointBytes_def)

lemma utf8Bytes_snoc_nul: "utf8Bytes (s @ [0]) = utf8Bytes s @ [0]"
  by (simp add: utf8Bytes_def utf8Encode_snoc_nul)

lemma utf8Encode_no_nul: "0 \<notin> set s \<Longrightarrow> 0 \<notin> set (utf8Encode s)"
proof (induction s rule: utf8Encode.induct)
  case 1
  then show ?case by simp
next
  case (2 c)
  then have "unat c \<noteq> 0" by (simp add: unat_eq_0)
  then show ?case
    using codePointBytes_zero [of "unat c"] by auto
next
  case (3 c d s)
  then have "unat c \<noteq> 0" by (simp add: unat_eq_0)
  moreover have "pairCodePoint c d \<noteq> 0"
    by (simp add: pairCodePoint_def)
  ultimately show ?case
    using 3 codePointBytes_zero [of "unat c"] codePointBytes_zero [of "pairCodePoint c d"]
    by (auto split: if_splits)
qed

lemma utf8Bytes_no_nul: "0 \<notin> set s \<Longrightarrow> 0 \<notin> set (utf8Bytes s)"
proof
  assume s: "0 \<notin> set s" and "0 \<in> set (utf8Bytes s)"
  then have "unat (0 :: byte) \<in> set (map unat (utf8Bytes s))"
    by (simp only: set_map) (rule imageI)
  then have "0 \<in> set (utf8Encode s)"
    by (simp add: unat_utf8Bytes)
  with utf8Encode_no_nul [OF s] show False by simp
qed

lemma not_surrogate: "unat c < 0xD800 \<Longrightarrow> \<not> isHighSurrogate c \<and> \<not> isLowSurrogate c"
  by (simp add: isHighSurrogate_def isLowSurrogate_def)

lemma utf8Encode_ascii: "(\<And>c. c \<in> set s \<Longrightarrow> unat c < 0x80) \<Longrightarrow> utf8Encode s = map unat s"
proof (induction s rule: utf8Encode.induct)
  case 1
  then show ?case by simp
next
  case (2 c)
  then have c: "unat c < 0x80" by simp
  then have "\<not> isHighSurrogate c \<and> \<not> isLowSurrogate c"
    by (intro not_surrogate) simp
  then show ?case
    using c by (simp add: codePointBytes_def)
next
  case (3 c d s)
  then have c: "unat c < 0x80" by simp
  then have n: "\<not> isHighSurrogate c \<and> \<not> isLowSurrogate c"
    by (intro not_surrogate) simp
  then have "utf8Encode (d # s) = map unat (d # s)"
    using "3.prems" by (intro "3.IH"(3)) simp_all
  then show ?case
    using c n by (simp add: codePointBytes_def)
qed

lemma wellFormed_no_surrogates:
  "(\<And>c. c \<in> set s \<Longrightarrow> unat c < 0xD800) \<Longrightarrow> wellFormed s"
proof (induction s rule: wellFormed.induct)
  case 1
  then show ?case by simp
next
  case (2 c)
  then have "unat c < 0xD800" by simp
  then show ?case
    using not_surrogate [of c] by simp
next
  case (3 c d s)
  then have "unat c < 0xD800" by simp
  then have n: "\<not> isHighSurrogate c \<and> \<not> isLowSurrogate c"
    by (rule not_surrogate)
  then have "wellFormed (d # s)"
    using "3.prems" by (intro "3.IH"(2)) simp_all
  then show ?case
    using n by simp
qed

lemma length_utf8Bytes_ascii:
  "(\<And>c. c \<in> set s \<Longrightarrow> unat c < 0x80) \<Longrightarrow> length (utf8Bytes s) = length s"
  by (simp add: length_utf8Bytes utf8Encode_ascii)

lemma utf8String_Nil: "utf8String [] = []"
  by (simp add: utf8String_def)

subsection \<open>Hexadecimal text and the envelope\<close>

lemma word_of_int_uint_map: "map (word_of_int \<circ> uint) bs = (bs :: byte list)"
  by (induction bs) simp_all

lemma unat_hexDigit:
  "n < 16 \<Longrightarrow> unat (hexDigit n) = (if n < 10 then 48 + n else 87 + n)"
  by (simp add: hexDigit_def unat_of_nat)

lemma hexValue_hexDigit: "n < 16 \<Longrightarrow> hexValue (hexDigit n) = Some n"
  by (simp add: hexValue_def unat_hexDigit)

lemma hexDigit_range:
  assumes "n < 16"
  shows "(48 \<le> unat (hexDigit n) \<and> unat (hexDigit n) \<le> 57)
         \<or> (97 \<le> unat (hexDigit n) \<and> unat (hexDigit n) \<le> 102)"
  using assms by (simp add: unat_hexDigit)

lemma toHex_units:
  assumes "c \<in> set (toHex bs)"
  shows "(48 \<le> unat c \<and> unat c \<le> 57) \<or> (97 \<le> unat c \<and> unat c \<le> 102)"
proof -
  obtain b :: byte where "c = hexDigit (unat b div 16) \<or> c = hexDigit (unat b mod 16)"
    using assms by (auto simp add: toHex_def)
  moreover have "unat b < 256" using unsigned_less [of b, where ?'a = nat] by simp
  then have "unat b div 16 < 16" and "unat b mod 16 < 16" by simp_all
  ultimately show ?thesis
    using hexDigit_range [of "unat b div 16"] hexDigit_range [of "unat b mod 16"] by blast
qed

lemma toHex_no_colon: "0x3A \<notin> set (toHex bs)"
  using toHex_units [of "0x3A" bs] by auto

lemma toHex_no_nul: "0 \<notin> set (toHex bs)"
  using toHex_units [of 0 bs] by auto

lemma fromHex_toHex: "fromHex (toHex bs) = bs"
proof (induction bs)
  case Nil
  then show ?case by (simp add: toHex_def)
next
  case (Cons b bs)
  have "unat b < 256" using unsigned_less [of b, where ?'a = nat] by simp
  then have hi: "unat b div 16 < 16" and lo: "unat b mod 16 < 16" by simp_all
  have "toHex (b # bs) = hexDigit (unat b div 16) # hexDigit (unat b mod 16) # toHex bs"
    by (simp add: toHex_def)
  moreover have "(of_nat (unat b div 16 * 16 + unat b mod 16) :: byte) = b"
    by simp
  ultimately show ?case
    using Cons by (simp add: hexValue_hexDigit [OF hi] hexValue_hexDigit [OF lo])
qed

lemma length_toHex: "length (toHex bs) = 2 * length bs"
  by (induction bs) (simp_all add: toHex_def)

lemma split_no_sep: "sep \<notin> set s \<Longrightarrow> split sep s = [s]"
  by (induction s) auto

lemma split_at_sep: "sep \<notin> set a \<Longrightarrow> split sep (a @ sep # b) = a # split sep b"
  by (induction a) auto

lemma decryptMessage_encryptMessage:
  "decryptMessage lib (encryptMessage lib iv message key) key
   = (case createDecipher lib (sha256 lib (utf8Bytes key))
             (createCipher lib (sha256 lib (utf8Bytes key)) (utf8Bytes message)) of
        Some decrypted \<Rightarrow> Inr (utf8String decrypted)
      | None \<Rightarrow> Inl DecryptionError)"
proof -
  let ?enc = "toHex (createCipher lib (sha256 lib (utf8Bytes key)) (utf8Bytes message))"
  have "split 0x3A (toHex iv @ 0x3A # ?enc) = [toHex iv, ?enc]"
    by (simp add: split_at_sep split_no_sep toHex_no_colon)
  then show ?thesis
    by (simp add: decryptMessage_def encryptMessage_def Let_def fromHex_toHex length_toHex)
qed

lemma encryptMessage_units:
  assumes "c \<in> set (encryptMessage lib iv message key)"
  shows "48 \<le> unat c \<and> unat c \<le> 102"
proof -
  have "c = 0x3A \<or> c \<in> set (toHex iv)
        \<or> c \<in> set (toHex (createCipher lib (sha256 lib (utf8Bytes key)) (utf8Bytes message)))"
    using assms by (auto simp add: encryptMessage_def Let_def)
  then show ?thesis
  proof (elim disjE)
    assume "c = 0x3A"
    then show ?thesis by simp
  next
    assume "c \<in> set (toHex iv)"
    from toHex_units [OF this] show ?thesis by linarith
  next
    assume "c \<in> set (toHex (createCipher lib (sha256 lib (utf8Bytes key)) (utf8Bytes message)))"
    from toHex_units [OF this] show ?thesis by linarith
  qed
qed

lemma encryptMessage_no_nul: "0 \<notin> set (encryptMessage lib iv message key)"
  using encryptMessage_units [of 0 lib iv message key] by auto

lemma wellFormed_encryptMessage: "wellFormed (encryptMessage lib iv message key)"
proof (rule wellFormed_no_surrogates)
  fix c
  assume "c \<in> set (encryptMessage lib iv message key)"
  then show "unat c < 0xD800"
    using encryptMessage_units [of c lib iv message key] by simp
qed

lemma length_utf8Bytes_encryptMessage:
  "length (utf8Bytes (encryptMessage lib iv message key))
   = 2 * length iv + 1
     + 2 * length (createCipher lib (sha256 lib (utf8Bytes key)) (utf8Bytes message))"
proof -
  have "length (utf8Bytes (encryptMessage lib iv message key))
        = length (encryptMessage lib iv message key)"
  proof (rule length_utf8Bytes_ascii)
    fix c
    assume "c \<in> set (encryptMessage lib iv message key)"
    then show "unat c < 0x80"
      using encryptMessage_units [of c lib iv message key] by simp
  qed
  then show ?thesis
    by (simp add: encryptMessage_def Let_def length_toHex)
qed

lemma decryptMessage_ignores_iv:
  assumes "0x3A \<notin> set ivHex" and "0x3A \<notin> set ivHex'"
  shows "decryptMessage lib (ivHex @ 0x3A # encrypted) key
         = decryptMessage lib (ivHex' @ 0x3A # encrypted) key"
  using assms by (simp add: decryptMessage_def Let_def split_at_sep)

subsection \<open>Decoding an encoded buffer\<close>

lemma messageBytes_eq:
  "messageBytes lib iv message key = utf8Bytes (processedMessage lib iv message key) @ [0]"
  by (simp add: messageBytes_def utf8Bytes_snoc_nul)

lemma messageBytes_empty: "messageBytes lib iv [] None = [0]"
  by (simp add: messageBytes_def processedMessage_def utf8Bytes_def codePointBytes_def
        isHighSurrogate_0 isLowSurrogate_0)

lemma length_messageBytes:
  "length (messageBytes lib iv message key)
   = length (utf8Bytes (processedMessage lib iv message key)) + 1"
  by (simp add: messageBytes_eq)

lemma takeWhile_snoc_nul:
  "takeWhile (\<lambda>b. b \<noteq> 0) (bs @ [0 :: byte]) = takeWhile (\<lambda>b. b \<noteq> 0) bs"
  by (induction bs) simp_all

lemma takeWhile_messageBytes:
  "takeWhile (\<lambda>b. b \<noteq> 0) (messageBytes lib iv message key)
   = takeWhile (\<lambda>b. b \<noteq> 0) (utf8Bytes (processedMessage lib iv message key))"
  by (simp only: messageBytes_eq takeWhile_snoc_nul)

lemma decodeMessage_embedded:
  assumes "length (messageBytes lib iv message key) * 8 \<le> maxCapacity buf"
  shows "decodeMessage lib' (embedded buf (frameBit (messageBytes lib iv message key))
                              (8 * length (messageBytes lib iv message key))) key'
         = (case key' of
              None \<Rightarrow>
                Inr (utf8String (takeWhile (\<lambda>b. b \<noteq> 0)
                       (utf8Bytes (processedMessage lib iv message key))))
            | Some k \<Rightarrow>
                if k \<noteq> []
                then decryptMessage lib'
                       (utf8String (takeWhile (\<lambda>b. b \<noteq> 0)
                          (utf8Bytes (processedMessage lib iv message key)))) k
                else Inr (utf8String (takeWhile (\<lambda>b. b \<noteq> 0)
                            (utf8Bytes (processedMessage lib iv message key)))))"
proof -
  let ?bs = "messageBytes lib iv message key"
  have fits: "8 * length ?bs \<le> maxCapacity buf"
    using assms by (simp add: mult.commute)
  have z: "0 \<in> set ?bs"
    by (simp add: messageBytes_eq)
  have "scanLoop (embedded buf (frameBit ?bs) (8 * length ?bs)) 0 0 [] 0 0
        = Terminator (map uint (takeWhile (\<lambda>b. b \<noteq> 0) ?bs))"
    by (rule scan_embedded [OF fits z])
  then show ?thesis
    by (cases key')
      (simp_all add: decodeMessage_def word_of_int_uint_map takeWhile_messageBytes Let_def)
qed

lemma takeWhile_all: "x \<notin> set xs \<Longrightarrow> takeWhile (\<lambda>c. c \<noteq> x) xs = xs"
  by (induction xs) auto

lemma encode_then_decode:
  assumes "length (messageBytes lib iv message key) * 8 \<le> maxCapacity (h ! data)"
  shows "snd (encodeMessage lib iv h data message key) = Inr (length h)"
    and "decodeMessage lib' (fst (encodeMessage lib iv h data message key) ! length h) key'
         = (case key' of
              None \<Rightarrow>
                Inr (utf8String (takeWhile (\<lambda>b. b \<noteq> 0)
                       (utf8Bytes (processedMessage lib iv message key))))
            | Some k \<Rightarrow>
                if k \<noteq> []
                then decryptMessage lib'
                       (utf8String (takeWhile (\<lambda>b. b \<noteq> 0)
                          (utf8Bytes (processedMessage lib iv message key)))) k
                else Inr (utf8String (takeWhile (\<lambda>b. b \<noteq> 0)
                            (utf8Bytes (processedMessage lib iv message key)))))"
proof -
  show "snd (encodeMessage lib iv h data message key) = Inr (length h)"
    by (simp add: encodeMessage_success [OF assms])
  show "decodeMessage lib' (fst (encodeMessage lib iv h data message key) ! length h) key'
         = (case key' of
              None \<Rightarrow>
                Inr (utf8String (takeWhile (\<lambda>b. b \<noteq> 0)
                       (utf8Bytes (processedMessage lib iv message key))))
            | Some k \<Rightarrow>
                if k \<noteq> []
                then decryptMessage lib'
                       (utf8String (takeWhile (\<lambda>b. b \<noteq> 0)
                          (utf8Bytes (processedMessage lib iv message key)))) k
                else Inr (utf8String (takeWhile (\<lambda>b. b \<noteq> 0)
                            (utf8Bytes (processedMessage lib iv message key)))))"
    by (simp add: encodeMessage_success [OF assms] decodeMessage_embedded [OF assms])
qed

lemma decode_plain:
  assumes "wellFormed s" and "0 \<notin> set s"
  shows "utf8String (takeWhile (\<lambda>b. b \<noteq> 0) (utf8Bytes s)) = s"
  using assms by (simp add: takeWhile_all utf8Bytes_no_nul utf8String_utf8Bytes)

lemma embedded_alpha:
  "offset < length buf \<Longrightarrow> offset mod 4 = 3 \<Longrightarrow> embedded buf bits n ! offset = buf ! offset"
  by (simp add: embedded_def)

lemma embedded_perturbation:
  assumes "offset < length buf" and "\<And>i. bits i AND 1 = bits i"
  shows "\<bar>uint (embedded buf bits n ! offset) - uint (buf ! offset)\<bar> \<le> 1"
  using assms perturbation [of "bits (bitIndexOf offset)" "buf ! offset"]
  by (simp add: embedded_def)

lemma embedded_high_bits:
  assumes "offset < length buf" and "\<And>i. bits i AND 1 = bits i"
  shows "drop_bit 1 (embedded buf bits n ! offset) = drop_bit 1 (buf ! offset)"
  using assms high_bits_kept [of "bits (bitIndexOf offset)" "buf ! offset"]
  by (simp add: embedded_def)

lemma scan_zero_prefix:
  assumes "9 \<le> length data" and "\<And>i. i < 8 \<Longrightarrow> getByte data (pixelIndexOf i) AND 1 = 0"
  shows "scanLoop data 0 0 [] 0 0 = Terminator []"
proof -
  let ?g = "\<lambda>i. getBit data (pixelIndexOf i)"
  have "3 \<le> (length data + 3) div 4"
    using assms(1) by linarith
  then have n: "8 \<le> scannedBits data"
    unfolding scannedBits_def by linarith
  have "[0..<scannedBits data] = [0..<8] @ [8..<scannedBits data]"
    using n upt_add_eq_append [of 0 8 "scannedBits data - 8"] by simp
  then have "mappedLsbs data = map ?g [0..<8] @ map ?g [8..<scannedBits data]"
    by (simp add: mappedLsbs_def)
  moreover have "map ?g [0..<8] = map (\<lambda>k. uint (drop_bit (7 - k) (0 :: byte) AND 1)) [0..<8]"
    by (rule map_cong) (simp_all add: getBit_def assms(2))
  ultimately have "completedBytes data
                   = assemble (map (\<lambda>k. uint (drop_bit (7 - k) (0 :: byte) AND 1)) [0..<8])
                     # completed (map ?g [8..<scannedBits data])"
    by (simp only: completedBytes_def) (rule completed_group, simp)
  then have "completedBytes data = 0 # completed (map ?g [8..<scannedBits data])"
    by (simp only: assemble_byte) simp
  then show ?thesis
    by (simp add: scan_completedBytes)
qed

subsection \<open>Round trip\<close>

lemma utf8Bytes_hi: "utf8Bytes [0x68, 0x69] = [0x68, 0x69]"
  by (simp add: utf8Bytes_def isHighSurrogate_def isLowSurrogate_def codePointBytes_def)

lemma utf8Bytes_k: "utf8Bytes [0x6B] = [0x6B]"
  by (simp add: utf8Bytes_def isHighSurrogate_def isLowSurrogate_def codePointBytes_def)

lemma utf8Bytes_a_nul_b: "utf8Bytes [0x61, 0, 0x62] = [0x61, 0, 0x62]"
  by (simp add: utf8Bytes_def isHighSurrogate_def isLowSurrogate_def codePointBytes_def)

lemma utf8Bytes_lone_surrogate: "utf8Bytes [0xD800] = [0xEF, 0xBF, 0xBD]"
  by (simp add: utf8Bytes_def isHighSurrogate_def)

lemma utf8String_a: "utf8String [0x61] = [0x61]"
  by (simp add: utf8String_def codePoints1 codeUnits_def)

lemma utf8String_replacement: "utf8String [0xEF, 0xBF, 0xBD] = [0xFFFD]"
proof -
  have "utf8CodePoints [0xEF, 0xBF, 0xBD] = [0xFFFD]"
    by (subst codePoints3) (simp_all add: second3_def continuation_def)
  then show ?thesis
    by (simp add: utf8String_def codeUnits_def)
qed

text \<open>
  C1 (as amended). Decoding what was encoded gives the message back when the framed
  message fits the capacity (the framed message is the UTF-8 form of the plaintext and
  its delimiter without a key, and that of the whole envelope \<open>ivHex:ciphertextHex\<close>
  and its delimiter with one), the message has no lone surrogate, and moreover: without
  a key (absent or empty), the message holds no NUL character; with a key, the cipher
  library deciphers what it enciphered under the digest of that key. Then
  \<open>encodeMessage\<close> succeeds and \<open>decodeMessage\<close> of the buffer it returns, with
  the same key, is the message.
\<close>

theorem roundtrip:
  assumes fits: "length (messageBytes lib iv message key) * 8 \<le> maxCapacity (h ! data)"
    and wf: "wellFormed message"
    and plain: "key = None \<or> key = Some [] \<Longrightarrow> 0 \<notin> set message"
    and cipher: "\<And>k. key = Some k \<Longrightarrow> k \<noteq> [] \<Longrightarrow>
                   createDecipher lib (sha256 lib (utf8Bytes k))
                     (createCipher lib (sha256 lib (utf8Bytes k)) (utf8Bytes message))
                   = Some (utf8Bytes message)"
  shows "snd (encodeMessage lib iv h data message key) = Inr (length h)
         \<and> decodeMessage lib (fst (encodeMessage lib iv h data message key) ! length h) key
             = Inr message"
proof -
  have d: "decodeMessage lib (fst (encodeMessage lib iv h data message key) ! length h) key
           = Inr message"
  proof (cases key)
    case None
    then have "processedMessage lib iv message key = message"
      by (simp add: processedMessage_def)
    then show ?thesis
      using None plain wf encode_then_decode(2) [OF fits, of lib key]
      by (simp add: decode_plain)
  next
    case (Some k)
    show ?thesis
    proof (cases "k = []")
      case True
      then have "processedMessage lib iv message key = message"
        using Some by (simp add: processedMessage_def)
      then show ?thesis
        using Some True plain wf encode_then_decode(2) [OF fits, of lib key]
        by (simp add: decode_plain)
    next
      case False
      then have "processedMessage lib iv message key = encryptMessage lib iv message k"
        using Some by (simp add: processedMessage_def)
      then have "decodeMessage lib (fst (encodeMessage lib iv h data message key) ! length h) key
                 = decryptMessage lib (encryptMessage lib iv message k) k"
        using Some False encode_then_decode(2) [OF fits, of lib key]
        by (simp add: decode_plain wellFormed_encryptMessage encryptMessage_no_nul)
      then show ?thesis
        using cipher [OF Some False] wf
        by (simp add: decryptMessage_encryptMessage utf8String_utf8Bytes)
    qed
  qed
  show ?thesis
    using d encode_then_decode(1) [OF fits] by simp
qed


text \<open>
  The theorem at \<open>"hi"\<close> in a 10-pixel image without a key, and in a 200-pixel image
  with the key \<open>"k"\<close> and a 16-byte initialisation vector.
\<close>

theorem roundtrip_witness:
  "(snd (encodeMessage demoLib [] [replicate 40 7] 0 [0x68, 0x69] None) = Inr 1
    \<and> decodeMessage demoLib
         (fst (encodeMessage demoLib [] [replicate 40 7] 0 [0x68, 0x69] None) ! 1) None
        = Inr [0x68, 0x69])
   \<and> (snd (encodeMessage demoLib [1, 2, 3, 4, 5, 6, 7, 8, 9, 10, 11, 12, 13, 14, 15, 16]
              [replicate 800 7] 0 [0x68, 0x69] (Some [0x6B])) = Inr 1
      \<and> decodeMessage demoLib
           (fst (encodeMessage demoLib [1, 2, 3, 4, 5, 6, 7, 8, 9, 10, 11, 12, 13, 14, 15, 16]
                   [replicate 800 7] 0 [0x68, 0x69] (Some [0x6B])) ! 1) (Some [0x6B])
          = Inr [0x68, 0x69])"
proof -
  have f1: "length (messageBytes demoLib [] [0x68, 0x69] None) * 8
            \<le> maxCapacity ([replicate 40 7] ! 0)"
    by (simp add: length_messageBytes processedMessage_def maxCapacity_def utf8Bytes_hi)
  have w: "wellFormed [0x68, 0x69]"
    by (simp add: isHighSurrogate_def isLowSurrogate_def)
  have p1: "0 \<notin> set [0x68, 0x69 :: codeUnit]"
    by simp
  have f2: "length (messageBytes demoLib [1, 2, 3, 4, 5, 6, 7, 8, 9, 10, 11, 12, 13, 14, 15, 16]
                      [0x68, 0x69] (Some [0x6B])) * 8
            \<le> maxCapacity ([replicate 800 7] ! 0)"
    by (simp add: length_messageBytes processedMessage_def length_utf8Bytes_encryptMessage
          maxCapacity_def demoLib_def utf8Bytes_hi)
  have c2: "createDecipher demoLib (sha256 demoLib (utf8Bytes [0x6B]))
              (createCipher demoLib (sha256 demoLib (utf8Bytes [0x6B])) (utf8Bytes [0x68, 0x69]))
            = Some (utf8Bytes [0x68, 0x69])"
    by (simp add: demoLib_def utf8Bytes_hi utf8Bytes_k)
  show ?thesis
    using roundtrip [OF f1 w] roundtrip [OF f2 w] p1 c2
    by simp
qed


text \<open>
  The claim as first stated fails three times. Without a key the three-character message
  \<open>"a\0b"\<close> fits a 12-pixel image (32 bits of 36) and encodes, but decodes to \<open>"a"\<close>:
  the scan stops at the first zero byte. The one-character message that is the lone
  surrogate \<open>D800\<close> fits the same image and encodes, as the three bytes of \<open>U+FFFD\<close>,
  and decodes to \<open>U+FFFD\<close>. With a key the plaintext \<open>"hi"\<close> fits the same image
  (24 bits of 36), but what is embedded is the envelope and its delimiter, 34 bytes and two
  for each byte of ciphertext, and encoding fails whatever the cipher library.
\<close>

theorem roundtrip_counterexample:
  "length (utf8Bytes [0x61, 0, 0x62]) * 8 + 8 \<le> maxCapacity (replicate 48 7)
   \<and> snd (encodeMessage demoLib [] [replicate 48 7] 0 [0x61, 0, 0x62] None) = Inr 1
   \<and> decodeMessage demoLib
        (fst (encodeMessage demoLib [] [replicate 48 7] 0 [0x61, 0, 0x62] None) ! 1)
        None = Inr [0x61]
   \<and> length (utf8Bytes [0xD800]) * 8 + 8 \<le> maxCapacity (replicate 48 7)
   \<and> snd (encodeMessage demoLib [] [replicate 48 7] 0 [0xD800] None) = Inr 1
   \<and> decodeMessage demoLib
        (fst (encodeMessage demoLib [] [replicate 48 7] 0 [0xD800] None) ! 1)
        None = Inr [0xFFFD]
   \<and> length (utf8Bytes [0x68, 0x69]) * 8 + 8 \<le> maxCapacity (replicate 48 7)
   \<and> (\<forall>lib. encodeMessage lib [1, 2, 3, 4, 5, 6, 7, 8, 9, 10, 11, 12, 13, 14, 15, 16]
               [replicate 48 7] 0 [0x68, 0x69] (Some [0x6B])
             = ([replicate 48 7],
                Inl (CapacityExceeded 4
                       (34 + 2 * length (createCipher lib (sha256 lib (utf8Bytes [0x6B]))
                                           (utf8Bytes [0x68, 0x69]))))))"
proof -
  have f: "length (messageBytes demoLib [] [0x61, 0, 0x62] None) * 8
           \<le> maxCapacity ([replicate 48 7] ! 0)"
    by (simp add: length_messageBytes processedMessage_def maxCapacity_def utf8Bytes_a_nul_b)
  have s: "length (messageBytes demoLib [] [0xD800] None) * 8
           \<le> maxCapacity ([replicate 48 7] ! 0)"
    by (simp add: length_messageBytes processedMessage_def maxCapacity_def
          utf8Bytes_lone_surrogate)
  have l: "length (messageBytes lib [1, 2, 3, 4, 5, 6, 7, 8, 9, 10, 11, 12, 13, 14, 15, 16]
                     [0x68, 0x69] (Some [0x6B]))
           = 34 + 2 * length (createCipher lib (sha256 lib (utf8Bytes [0x6B]))
                                (utf8Bytes [0x68, 0x69]))" for lib
    by (simp add: length_messageBytes processedMessage_def length_utf8Bytes_encryptMessage)
  have g: "\<not> length (messageBytes lib [1, 2, 3, 4, 5, 6, 7, 8, 9, 10, 11, 12, 13, 14, 15, 16]
                        [0x68, 0x69] (Some [0x6B])) * 8
             \<le> maxCapacity ([replicate 48 7] ! 0)" for lib
    by (simp add: l maxCapacity_def)
  have k: "encodeMessage lib [1, 2, 3, 4, 5, 6, 7, 8, 9, 10, 11, 12, 13, 14, 15, 16]
             [replicate 48 7] 0 [0x68, 0x69] (Some [0x6B])
           = ([replicate 48 7],
              Inl (CapacityExceeded 4
                     (34 + 2 * length (createCipher lib (sha256 lib (utf8Bytes [0x6B]))
                                         (utf8Bytes [0x68, 0x69])))))" for lib
    using encodeMessage_failure [OF g [of lib]] by (simp add: l maxCapacity_def)
  have a: "snd (encodeMessage demoLib [] [replicate 48 7] 0 [0x61, 0, 0x62] None) = Inr 1
           \<and> decodeMessage demoLib
               (fst (encodeMessage demoLib [] [replicate 48 7] 0 [0x61, 0, 0x62] None) ! 1)
               None = Inr [0x61]"
    using encode_then_decode(1) [OF f] encode_then_decode(2) [OF f, of demoLib None]
    by (simp add: processedMessage_def utf8Bytes_a_nul_b utf8String_a)
  have b: "snd (encodeMessage demoLib [] [replicate 48 7] 0 [0xD800] None) = Inr 1
           \<and> decodeMessage demoLib
               (fst (encodeMessage demoLib [] [replicate 48 7] 0 [0xD800] None) ! 1)
               None = Inr [0xFFFD]"
    using encode_then_decode(1) [OF s] encode_then_decode(2) [OF s, of demoLib None]
    by (simp add: processedMessage_def utf8Bytes_lone_surrogate utf8String_replacement)
  have c: "length (utf8Bytes [0x61, 0, 0x62]) * 8 + 8 \<le> maxCapacity (replicate 48 7)"
    and d: "length (utf8Bytes [0xD800]) * 8 + 8 \<le> maxCapacity (replicate 48 7)"
    and e: "length (utf8Bytes [0x68, 0x69]) * 8 + 8 \<le> maxCapacity (replicate 48 7)"
    by (simp_all add: utf8Bytes_a_nul_b utf8Bytes_lone_surrogate utf8Bytes_hi maxCapacity_def)
  show ?thesis
    using a b c d e k by blast
qed

subsection \<open>The capacity boundary\<close>

text \<open>
  C2. For a buffer of \<open>pixelCount\<close> whole pixels, \<open>encodeMessage\<close> succeeds if and
  only if \<open>requiredBits\<close>, eight times the length of the framed message, is at most
  \<open>pixelCount * 3\<close>. When it is more, the call fails with \<open>CapacityExceeded\<close>, whose
  \<open>maxBytes\<close> is \<open>floor(capacityBits / 8)\<close> and whose \<open>requiredBytes\<close> is the length
  of the framed message, and the store is left as it was. In particular a message of 40
  bytes and a 10 by 10 image, without a key, fail with \<open>CapacityExceeded 37 41\<close>.
\<close>

theorem encodeMessage_capacity_boundary:
  assumes "length (h ! data) = 4 * pixelCount"
  shows "((\<exists>modifiedData. snd (encodeMessage lib iv h data message key) = Inr modifiedData)
          \<longleftrightarrow> length (messageBytes lib iv message key) * 8 \<le> pixelCount * 3)
       \<and> (\<not> length (messageBytes lib iv message key) * 8 \<le> pixelCount * 3 \<longrightarrow>
            encodeMessage lib iv h data message key
            = (h, Inl (CapacityExceeded (pixelCount * 3 div 8)
                         (length (messageBytes lib iv message key)))))
       \<and> (pixelCount = 100 \<and> length (utf8Bytes message) = 40 \<longrightarrow>
            encodeMessage lib iv h data message None = (h, Inl (CapacityExceeded 37 41)))"
proof -
  have c: "maxCapacity (h ! data) = pixelCount * 3"
    by (rule maxCapacity_pixels [OF assms])
  have a: "(\<exists>modifiedData. snd (encodeMessage lib iv h data message key) = Inr modifiedData)
           \<longleftrightarrow> length (messageBytes lib iv message key) * 8 \<le> pixelCount * 3"
  proof (cases "length (messageBytes lib iv message key) * 8 \<le> maxCapacity (h ! data)")
    case True
    then show ?thesis
      using c by (simp add: encodeMessage_success)
  next
    case False
    then show ?thesis
      using c by (simp add: encodeMessage_failure)
  qed
  have b: "encodeMessage lib iv h data message key
           = (h, Inl (CapacityExceeded (pixelCount * 3 div 8)
                        (length (messageBytes lib iv message key))))"
    if "\<not> length (messageBytes lib iv message key) * 8 \<le> pixelCount * 3"
    using that c by (simp add: encodeMessage_failure)
  have s: "encodeMessage lib iv h data message None = (h, Inl (CapacityExceeded 37 41))"
    if "pixelCount = 100" and "length (utf8Bytes message) = 40"
  proof -
    have l: "length (messageBytes lib iv message None) = 41"
      using that(2) by (simp add: length_messageBytes processedMessage_def)
    then have "\<not> length (messageBytes lib iv message None) * 8 \<le> maxCapacity (h ! data)"
      using c that(1) by simp
    then show ?thesis
      using c l that(1) by (simp add: encodeMessage_failure)
  qed
  show ?thesis
    using a b s by blast
qed


text \<open>
  The theorem at the all-zero 10 by 10 image: a message of 40 letters \<open>x\<close> fails as
  stated, and one of 36 (37 bytes framed, 296 bits of 300) is encoded.
\<close>

theorem encodeMessage_capacity_boundary_witness:
  "encodeMessage demoLib [] [replicate 400 0] 0 (replicate 40 0x78) None
   = ([replicate 400 0], Inl (CapacityExceeded 37 41))
   \<and> (\<exists>modifiedData.
        snd (encodeMessage demoLib [] [replicate 400 0] 0 (replicate 36 0x78) None)
        = Inr modifiedData)"
proof -
  have l: "length ([replicate 400 (0 :: byte)] ! 0) = 4 * 100"
    by simp
  have m: "length (utf8Bytes (replicate n 0x78)) = n" for n
    by (subst length_utf8Bytes_ascii) simp_all
  have f: "length (messageBytes demoLib [] (replicate 36 0x78) None) * 8 \<le> 100 * 3"
    by (simp add: length_messageBytes processedMessage_def m)
  show ?thesis
    using encodeMessage_capacity_boundary [OF l, of demoLib "[]" "replicate 40 0x78" None]
      encodeMessage_capacity_boundary [OF l, of demoLib "[]" "replicate 36 0x78" None] f m
    by simp
qed


subsection \<open>The input buffer is not written\<close>

text \<open>
  C4. Whatever the message and the key, every buffer that was in the store before the
  call is the same after it: the store that \<open>encodeMessage\<close> leaves agrees with the
  initial one on all the addresses of the initial one. On failure the store is the
  initial store itself (the capacity test precedes the copy and every write); on success
  it has exactly one buffer more, the fresh copy \<open>modifiedData\<close> that is returned, and
  all writes went there.
\<close>

theorem encodeMessage_input_unchanged:
  "take (length h) (fst (encodeMessage lib iv h data message key)) = h
   \<and> (case snd (encodeMessage lib iv h data message key) of
        Inl e \<Rightarrow> fst (encodeMessage lib iv h data message key) = h
      | Inr modifiedData \<Rightarrow>
          modifiedData = length h
          \<and> length (fst (encodeMessage lib iv h data message key)) = length h + 1)"
proof (cases "length (messageBytes lib iv message key) * 8 \<le> maxCapacity (h ! data)")
  case True
  then show ?thesis
    by (simp add: encodeMessage_success)
next
  case False
  then show ?thesis
    by (simp add: encodeMessage_failure)
qed

subsection \<open>What the encoder changes in the pixels\<close>

lemma bit_value_mask: "messageBit = 0 \<or> messageBit = 1 \<Longrightarrow> messageBit AND 1 = (messageBit :: byte)"
  by auto

lemma encodeMessage_Inr:
  assumes "snd (encodeMessage lib iv h data message key) = Inr modifiedData"
  shows "length (messageBytes lib iv message key) * 8 \<le> maxCapacity (h ! data)"
    and "modifiedData = length h"
proof -
  show fits: "length (messageBytes lib iv message key) * 8 \<le> maxCapacity (h ! data)"
  proof (rule ccontr)
    assume "\<not> length (messageBytes lib iv message key) * 8 \<le> maxCapacity (h ! data)"
    then show False
      using assms by (simp add: encodeMessage_failure)
  qed
  show "modifiedData = length h"
    using assms by (simp add: encodeMessage_success [OF fits])
qed

text \<open>
  C6. Writing a bit (0 or 1) into a byte of the buffer stores \<open>(byte & 0xFE) | bit\<close>:
  the seven high bits of the byte are kept, and the value moves by at most 1.
  Consequently, when \<open>encodeMessage\<close> succeeds, the returned buffer has the length of
  the input and each of its bytes has the seven high bits of the input byte at the same
  offset and differs from it by at most 1.
\<close>

theorem setBit_perturbation:
  assumes "messageBit = 0 \<or> messageBit = 1"
    and "modifiedData < length h"
    and "pixelIndex < length (h ! modifiedData)"
  shows "setBit h modifiedData pixelIndex messageBit ! modifiedData ! pixelIndex
           = (h ! modifiedData ! pixelIndex AND 0xFE) OR messageBit
       \<and> drop_bit 1 (setBit h modifiedData pixelIndex messageBit ! modifiedData ! pixelIndex)
           = drop_bit 1 (h ! modifiedData ! pixelIndex)
       \<and> \<bar>uint (setBit h modifiedData pixelIndex messageBit ! modifiedData ! pixelIndex)
            - uint (h ! modifiedData ! pixelIndex)\<bar> \<le> 1
       \<and> (\<forall>encoded offset.
             snd (encodeMessage lib iv h data message key) = Inr encoded
             \<and> offset < length (h ! data) \<longrightarrow>
               length (fst (encodeMessage lib iv h data message key) ! encoded) = length (h ! data)
               \<and> drop_bit 1 (fst (encodeMessage lib iv h data message key) ! encoded ! offset)
                   = drop_bit 1 (h ! data ! offset)
               \<and> \<bar>uint (fst (encodeMessage lib iv h data message key) ! encoded ! offset)
                    - uint (h ! data ! offset)\<bar> \<le> 1)"
proof -
  have m: "messageBit AND 1 = messageBit"
    by (rule bit_value_mask [OF assms(1)])
  have w: "setBit h modifiedData pixelIndex messageBit ! modifiedData ! pixelIndex
           = (h ! modifiedData ! pixelIndex AND 0xFE) OR messageBit"
    using assms(2,3) by (simp add: setBit_def getByte_def)
  have e: "length (fst (encodeMessage lib iv h data message key) ! encoded) = length (h ! data)
           \<and> drop_bit 1 (fst (encodeMessage lib iv h data message key) ! encoded ! offset)
               = drop_bit 1 (h ! data ! offset)
           \<and> \<bar>uint (fst (encodeMessage lib iv h data message key) ! encoded ! offset)
                - uint (h ! data ! offset)\<bar> \<le> 1"
    if s: "snd (encodeMessage lib iv h data message key) = Inr encoded"
      and o: "offset < length (h ! data)" for encoded offset
  proof -
    note fits = encodeMessage_Inr(1) [OF s] and fresh = encodeMessage_Inr(2) [OF s]
    let ?bs = "messageBytes lib iv message key"
    show ?thesis
      unfolding encodeMessage_success [OF fits] fresh
      using embedded_perturbation [where bits = "frameBit ?bs" and n = "8 * length ?bs", OF o frameBit_bit]
        embedded_high_bits [where bits = "frameBit ?bs" and n = "8 * length ?bs", OF o frameBit_bit]
      by (simp add: length_embedded)
  qed
  have k: "drop_bit 1 ((h ! modifiedData ! pixelIndex AND 0xFE) OR messageBit)
           = drop_bit 1 (h ! modifiedData ! pixelIndex)"
    by (rule high_bits_kept [OF m])
  have p: "\<bar>uint ((h ! modifiedData ! pixelIndex AND 0xFE) OR messageBit)
            - uint (h ! modifiedData ! pixelIndex)\<bar> \<le> 1"
    by (rule perturbation [OF m])
  show ?thesis
    unfolding w using k p e by blast
qed


text \<open>
  The theorem at an all-\<open>0xFF\<close> image of three pixels: writing bit 0 into the first byte
  gives \<open>0xFE\<close>, and byte 5 of the buffer encoded for the empty message is within 1 of
  \<open>0xFF\<close>.
\<close>

theorem setBit_perturbation_witness:
  "setBit [replicate 12 255] 0 0 0 ! 0 ! 0 = 254
   \<and> drop_bit 1 (setBit [replicate 12 255] 0 0 0 ! 0 ! 0) = (127 :: byte)
   \<and> \<bar>uint (setBit [replicate 12 255] 0 0 0 ! 0 ! 0) - 255\<bar> \<le> 1
   \<and> \<bar>uint (fst (encodeMessage demoLib [] [replicate 12 255] 0 [] None) ! 1 ! 5) - 255\<bar> \<le> 1"
proof -
  have a: "(0 :: byte) = 0 \<or> (0 :: byte) = 1" by simp
  have b: "0 < length [replicate 12 (255 :: byte)]" by simp
  have c: "0 < length ([replicate 12 (255 :: byte)] ! 0)" by simp
  note t = setBit_perturbation [OF a b c, of demoLib "[]" 0 "[]" None]
  have f: "length (messageBytes demoLib [] [] None) * 8 \<le> maxCapacity ([replicate 12 255] ! 0)"
    by (simp add: messageBytes_empty maxCapacity_def)
  have s: "snd (encodeMessage demoLib [] [replicate 12 255] 0 [] None) = Inr 1"
    using encode_then_decode(1) [OF f] by simp
  have "\<bar>uint (fst (encodeMessage demoLib [] [replicate 12 255] 0 [] None) ! 1 ! 5)
         - uint ([replicate 12 (255 :: byte)] ! 0 ! 5)\<bar> \<le> 1"
    using t s by simp
  then show ?thesis
    using t by simp
qed


text \<open>
  C7. When \<open>encodeMessage\<close> succeeds, the returned buffer has the length of the input
  and, at every offset that is 3 modulo 4 (the alpha byte of a pixel), the byte of the
  input.
\<close>

theorem encodeMessage_alpha_preserved:
  assumes "snd (encodeMessage lib iv h data message key) = Inr modifiedData"
    and "offset < length (h ! data)"
    and "offset mod 4 = 3"
  shows "length (fst (encodeMessage lib iv h data message key) ! modifiedData) = length (h ! data)
       \<and> fst (encodeMessage lib iv h data message key) ! modifiedData ! offset = h ! data ! offset"
proof -
  note fits = encodeMessage_Inr(1) [OF assms(1)] and fresh = encodeMessage_Inr(2) [OF assms(1)]
  show ?thesis
    unfolding encodeMessage_success [OF fits] fresh
    using assms(2,3) by (simp add: length_embedded embedded_alpha)
qed


text \<open>
  The theorem at a three-pixel image with alpha bytes 200, 201 and 202: the alpha byte
  of the second pixel is still 201 after the empty message was encoded.
\<close>

theorem encodeMessage_alpha_preserved_witness:
  "length (fst (encodeMessage demoLib [] [[1, 2, 3, 200, 5, 6, 7, 201, 9, 10, 11, 202]] 0 [] None) ! 1) = 12
   \<and> fst (encodeMessage demoLib [] [[1, 2, 3, 200, 5, 6, 7, 201, 9, 10, 11, 202]] 0 [] None) ! 1 ! 7 = 201"
proof -
  have f: "length (messageBytes demoLib [] [] None) * 8
           \<le> maxCapacity ([[1, 2, 3, 200, 5, 6, 7, 201, 9, 10, 11, 202]] ! 0)"
    by (simp add: messageBytes_empty maxCapacity_def)
  have s: "snd (encodeMessage demoLib [] [[1, 2, 3, 200, 5, 6, 7, 201, 9, 10, 11, 202]] 0 [] None) = Inr 1"
    using encode_then_decode(1) [OF f] by simp
  have o: "7 < length ([[1, 2, 3, 200, 5, 6, 7, 201, 9, 10, 11, 202 :: byte]] ! 0)" by simp
  have m: "(7 :: nat) mod 4 = 3" by simp
  show ?thesis
    using encodeMessage_alpha_preserved [OF s o m] by simp
qed

subsection \<open>When the decoder finds no message\<close>

lemma decryptMessage_not_NoMessageFound: "decryptMessage lib encryptedMessage key \<noteq> Inl NoMessageFound"
  by (simp add: decryptMessage_def Let_def split: list.splits option.splits if_splits)

text \<open>
  C10. In a buffer of at least three pixels whose first eight mapped bytes (the R, G and
  B bytes of pixels 0 and 1 and the R and G bytes of pixel 2) all have low bit 0, the
  first byte assembled is the terminator: \<open>decodeMessage\<close> without a key returns the
  empty string, and does not fail.
\<close>

theorem decodeMessage_zero_prefix:
  assumes "12 \<le> length data"
    and "\<forall>i<8. getByte data (pixelIndexOf i) AND 1 = 0"
  shows "decodeMessage lib data None = Inr []"
proof -
  have "scanLoop data 0 0 [] 0 0 = Terminator []"
    using assms by (intro scan_zero_prefix) simp_all
  then show ?thesis
    by (simp add: decodeMessage_def utf8String_Nil)
qed

text \<open>The theorem at the all-zero 10 by 10 image.\<close>

theorem decodeMessage_zero_prefix_witness:
  "decodeMessage demoLib (replicate 400 0) None = Inr []"
proof -
  have a: "12 \<le> length (replicate 400 (0 :: byte))" by simp
  have b: "\<forall>i<8. getByte (replicate 400 0) (pixelIndexOf i) AND 1 = 0"
    by (simp add: getByte_def)
  show ?thesis
    by (rule decodeMessage_zero_prefix [OF a b])
qed

text \<open>
  C8 (as amended). \<open>decodeMessage\<close> fails with \<open>NoMessageFound\<close> exactly when the
  scan of the mapped low bits completes no byte equal to \<open>0x00\<close>, whatever the key.
  When the scan does complete one, then without a key the result is the text of the
  bytes completed before the first of them, whether or not anything was ever encoded into
  the image.
\<close>

theorem decodeMessage_NoMessageFound_iff:
  "(decodeMessage lib data key = Inl NoMessageFound) = (0 \<notin> set (completedBytes data))
   \<and> decodeMessage lib data None
       = (if 0 \<in> set (completedBytes data)
          then Inr (utf8String (map word_of_int (takeWhile (\<lambda>b. b \<noteq> 0) (completedBytes data))))
          else Inl NoMessageFound)"
proof (cases "0 \<in> set (completedBytes data)")
  case True
  then show ?thesis
    by (cases key)
      (simp_all add: decodeMessage_def scan_completedBytes decryptMessage_not_NoMessageFound Let_def)
next
  case False
  then show ?thesis
    by (simp add: decodeMessage_def scan_completedBytes)
qed

text \<open>
  The theorem at a three-pixel image whose R, G and B bytes are all 1: the one byte that
  the scan completes is \<open>0xFF\<close>, and decoding fails with and without a key. And at a
  six-pixel image whose first eight mapped bytes are 1 and whose other bytes are even:
  the scan completes \<open>0xFF\<close> and then the terminator, and the text of the byte
  \<open>0xFF\<close>, which is not UTF-8, is \<open>U+FFFD\<close>.
\<close>

theorem decodeMessage_NoMessageFound_iff_witness:
  "decodeMessage demoLib [1, 1, 1, 255, 1, 1, 1, 255, 1, 1, 1, 255] (Some [0x6B])
   = Inl NoMessageFound
   \<and> decodeMessage demoLib [1, 1, 1, 255, 1, 1, 1, 255, 1, 1, 1, 255] None = Inl NoMessageFound
   \<and> decodeMessage demoLib
        [1, 1, 1, 255, 1, 1, 1, 255, 1, 1, 0, 255, 0, 0, 0, 255, 0, 0, 0, 255, 0, 0, 0, 255] None
      = Inr [0xFFFD]"
proof -
  have a: "completedBytes [1, 1, 1, 255, 1, 1, 1, 255, 1, 1, 1, 255] = [255]"
    by (simp add: completedBytes_def mappedLsbs_def scannedBits_def getBit_def getByte_def
          pixelIndexOf_def assemble_def upt_conv_Cons)
  have b: "completedBytes
             [1, 1, 1, 255, 1, 1, 1, 255, 1, 1, 0, 255, 0, 0, 0, 255, 0, 0, 0, 255, 0, 0, 0, 255]
           = [255, 0]"
    by (simp add: completedBytes_def mappedLsbs_def scannedBits_def getBit_def getByte_def
          pixelIndexOf_def assemble_def upt_conv_Cons)
  have c: "utf8String [0xFF] = [0xFFFD]"
    by (simp add: utf8String_def utf8CodePoints.simps(2) codeUnits_def)
  show ?thesis
    using decodeMessage_NoMessageFound_iff
            [of demoLib "[1, 1, 1, 255, 1, 1, 1, 255, 1, 1, 1, 255]" "Some [0x6B]"]
          decodeMessage_NoMessageFound_iff
            [of demoLib
               "[1, 1, 1, 255, 1, 1, 1, 255, 1, 1, 0, 255, 0, 0, 0, 255, 0, 0, 0, 255, 0, 0, 0, 255]"
               None]
          a b c
    by simp
qed

text \<open>
  The claim as first stated, that an image into which nothing was encoded makes the
  decoder fail, is false for an opaque black image of three pixels: all its R, G and B
  bytes are even, so the first byte assembled is the terminator and the result is the
  empty string.
\<close>

theorem decodeMessage_unmodified_counterexample:
  "decodeMessage demoLib [0, 0, 0, 255, 0, 0, 0, 255, 0, 0, 0, 255] None = Inr []"
proof -
  have "getByte [0, 0, 0, 255, 0, 0, 0, 255, 0, 0, 0, 255] (pixelIndexOf i) AND 1 = 0" if "i < 8" for i
  proof -
    have "i = 0 \<or> i = 1 \<or> i = 2 \<or> i = 3 \<or> i = 4 \<or> i = 5 \<or> i = 6 \<or> i = 7"
      using that by linarith
    then show ?thesis
      by (elim disjE) (simp_all add: pixelIndexOf_def getByte_def)
  qed
  then have "scanLoop [0, 0, 0, 255, 0, 0, 0, 255, 0, 0, 0, 255] 0 0 [] 0 0 = Terminator []"
    by (intro scan_zero_prefix) simp_all
  then show ?thesis
    by (simp add: decodeMessage_def utf8String_Nil)
qed

subsection \<open>No validation of the input\<close>

lemma terminator_offsets:
  "(offset mod 4 < 3 \<and> bitIndexOf offset < 8) = (offset \<in> {0, 1, 2, 4, 5, 6, 8, 9})"
proof (cases "offset < 12")
  case True
  have "offset = 0 \<or> offset = 1 \<or> offset = 2 \<or> offset = 3 \<or> offset = 4 \<or> offset = 5"
    if "offset < 6"
    using that by linarith
  moreover have "offset = 6 \<or> offset = 7 \<or> offset = 8 \<or> offset = 9 \<or> offset = 10 \<or> offset = 11"
    if "\<not> offset < 6"
    using that True by linarith
  ultimately have "offset = 0 \<or> offset = 1 \<or> offset = 2 \<or> offset = 3 \<or> offset = 4
             \<or> offset = 5 \<or> offset = 6 \<or> offset = 7 \<or> offset = 8 \<or> offset = 9
             \<or> offset = 10 \<or> offset = 11"
    by blast
  then show ?thesis
    by (elim disjE) (simp_all add: bitIndexOf_def)
next
  case False
  then have "3 \<le> offset div 4"
    by linarith
  then have "\<not> bitIndexOf offset < 8"
    unfolding bitIndexOf_def by linarith
  then show ?thesis
    using False by auto
qed

lemma embedded_terminator:
  assumes "offset < length buf"
  shows "embedded buf (frameBit [0]) 8 ! offset
         = (if offset \<in> {0, 1, 2, 4, 5, 6, 8, 9} then buf ! offset AND 0xFE else buf ! offset)"
proof -
  have e: "embedded buf (frameBit [0]) 8 ! offset
           = (if offset mod 4 < 3 \<and> bitIndexOf offset < 8
              then (buf ! offset AND 0xFE) OR frameBit [0] (bitIndexOf offset)
              else buf ! offset)"
    using assms by (simp add: embedded_def)
  have z: "bitIndexOf offset < 8 \<Longrightarrow> frameBit [0] (bitIndexOf offset) = 0"
    by (simp add: frameBit_def)
  show ?thesis
    unfolding e terminator_offsets [symmetric] using z by auto
qed

text \<open>
  C9 (as amended). \<open>encodeMessage\<close> does not reject an empty message. For a raw
  buffer of four bytes for each of at least three pixels, the empty message without a key
  is framed as the terminator byte alone and embedded: the call succeeds, the buffer
  returned has the length of the input, the low bit is cleared in its first eight mapped
  bytes (the R, G and B bytes of pixels 0 and 1 and the R and G bytes of pixel 2) and
  every other byte is that of the input, and it decodes to the empty string.
\<close>

theorem encodeMessage_accepts_empty_message:
  assumes "length (h ! data) = 4 * pixelCount" and "3 \<le> pixelCount"
  shows "snd (encodeMessage lib iv h data [] None) = Inr (length h)
       \<and> length (fst (encodeMessage lib iv h data [] None) ! length h) = length (h ! data)
       \<and> (\<forall>offset < length (h ! data).
            fst (encodeMessage lib iv h data [] None) ! length h ! offset
            = (if offset \<in> {0, 1, 2, 4, 5, 6, 8, 9} then h ! data ! offset AND 0xFE
               else h ! data ! offset))
       \<and> decodeMessage lib (fst (encodeMessage lib iv h data [] None) ! length h) None = Inr []"
proof -
  have "maxCapacity (h ! data) = pixelCount * 3"
    by (rule maxCapacity_pixels [OF assms(1)])
  then have fits: "length (messageBytes lib iv [] None) * 8 \<le> maxCapacity (h ! data)"
    using assms(2) by (simp add: messageBytes_empty)
  have e: "fst (encodeMessage lib iv h data [] None) ! length h
           = embedded (h ! data) (frameBit [0]) 8"
    by (simp add: encodeMessage_success [OF fits] messageBytes_empty)
  have d: "decodeMessage lib (fst (encodeMessage lib iv h data [] None) ! length h) None = Inr []"
    using encode_then_decode(2) [OF fits, of lib None]
    by (simp add: processedMessage_def utf8Bytes_def utf8String_Nil)
  show ?thesis
    using encode_then_decode(1) [OF fits] d
    by (simp add: e length_embedded embedded_terminator)
qed

text \<open>
  The theorem at an all-\<open>0xFF\<close> image of three pixels: the call succeeds, the first
  byte becomes \<open>0xFE\<close>, as does the G byte of the third pixel, while its B byte and the
  alpha byte of the first pixel stay \<open>0xFF\<close>, and the result decodes to the empty
  string.
\<close>

theorem encodeMessage_accepts_empty_message_witness:
  "snd (encodeMessage demoLib [] [replicate 12 255] 0 [] None) = Inr 1
   \<and> length (fst (encodeMessage demoLib [] [replicate 12 255] 0 [] None) ! 1) = 12
   \<and> fst (encodeMessage demoLib [] [replicate 12 255] 0 [] None) ! 1 ! 0 = 254
   \<and> fst (encodeMessage demoLib [] [replicate 12 255] 0 [] None) ! 1 ! 3 = 255
   \<and> fst (encodeMessage demoLib [] [replicate 12 255] 0 [] None) ! 1 ! 9 = 254
   \<and> fst (encodeMessage demoLib [] [replicate 12 255] 0 [] None) ! 1 ! 10 = 255
   \<and> decodeMessage demoLib (fst (encodeMessage demoLib [] [replicate 12 255] 0 [] None) ! 1) None
       = Inr []"
proof -
  have a: "length ([replicate 12 (255 :: byte)] ! 0) = 4 * 3" by simp
  have b: "(3 :: nat) \<le> 3" by simp
  note t = encodeMessage_accepts_empty_message [OF a b, of demoLib "[]"]
  have "fst (encodeMessage demoLib [] [replicate 12 255] 0 [] None) ! 1 ! offset
        = (if offset \<in> {0, 1, 2, 4, 5, 6, 8, 9} then 254 else 255)" if "offset < 12" for offset
    using t that by simp
  from this [of 0] this [of 3] this [of 9] this [of 10] show ?thesis
    using t by simp
qed

text \<open>
  The claim as first stated fails: the empty message is encoded into a 2 by 2 image, and
  no error is raised.
\<close>

theorem encodeMessage_empty_counterexample:
  "snd (encodeMessage demoLib []
          [[10, 20, 30, 255, 40, 50, 60, 255, 70, 80, 90, 255, 100, 110, 120, 255]] 0 [] None)
   = Inr 1"
proof -
  have f: "length (messageBytes demoLib [] [] None) * 8
           \<le> maxCapacity ([[10, 20, 30, 255, 40, 50, 60, 255, 70, 80, 90, 255, 100, 110, 120, 255]] ! 0)"
    by (simp add: messageBytes_empty maxCapacity_def)
  show ?thesis
    using encode_then_decode(1) [OF f] by simp
qed

subsection \<open>The initialisation vector of the envelope\<close>

text \<open>
  C3. \<open>decryptMessage\<close> parses the text before the colon into \<open>iv\<close> and never uses
  it: two envelopes with the same ciphertext and the initialisation vectors
  \<open>00\<dots>00\<close> and \<open>ff\<dots>ff\<close> (32 digits \<open>0\<close>, code unit \<open>0x30\<close>, and 32 digits
  \<open>f\<close>, code unit \<open>0x66\<close>) decrypt to the same result under every key and every
  cipher library. The plaintext does not depend on the stored vector.
\<close>

theorem decryptMessage_iv_unused:
  "decryptMessage lib (replicate 32 0x30 @ 0x3A # encrypted) key
   = decryptMessage lib (replicate 32 0x66 @ 0x3A # encrypted) key"
  by (rule decryptMessage_ignores_iv) simp_all

end
